theory Spec2Isabelle
  imports Main "HOL-Library.AList" "HOL-Library.Multiset"
begin

section \<open>Python values used by the pedigree code\<close>

text \<open>
  A string is a list of characters with code points below 256, the characters of the type
  \<open>char\<close>. The helpers below are the \<^verbatim>\<open>str\<close> methods the pedigree parser calls:
  \<^verbatim>\<open>rstrip()\<close>, \<^verbatim>\<open>startswith()\<close>, \<^verbatim>\<open>split()\<close> without arguments, and
  the builtin \<^verbatim>\<open>int()\<close>. \<open>isspace\<close> holds of the characters below 256 that
  \<^verbatim>\<open>str\<close> treats as white space: tab to carriage return, the four separators
  \<^verbatim>\<open>0x1C\<close> to \<^verbatim>\<open>0x1F\<close>, the space, next line (\<^verbatim>\<open>0x85\<close>) and the no-break
  space (\<^verbatim>\<open>0xA0\<close>).
\<close>

definition isspace :: "char \<Rightarrow> bool" where
  "isspace c = (c \<in> set [CHR '' '', CHR 0x09, CHR 0x0A, CHR 0x0B, CHR 0x0C, CHR 0x0D,
                           CHR 0x1C, CHR 0x1D, CHR 0x1E, CHR 0x1F, CHR 0x85, CHR 0xA0])"

definition rstrip :: "string \<Rightarrow> string" where
  "rstrip s = rev (dropWhile isspace (rev s))"

text \<open>\<^verbatim>\<open>s.split()\<close>: maximal runs of non-space characters, in order;
  \<open>w\<close> is the current word, reversed.\<close>

fun split_acc :: "string \<Rightarrow> string \<Rightarrow> string list" where
  "split_acc w [] = (if w = [] then [] else [rev w])"
| "split_acc w (c # cs) =
     (if isspace c then (if w = [] then split_acc [] cs else rev w # split_acc [] cs)
      else split_acc (c # w) cs)"

definition split :: "string \<Rightarrow> string list" where
  "split s = split_acc [] s"

definition startswith :: "string \<Rightarrow> string \<Rightarrow> bool" where
  "startswith s p = (take (length p) s = p)"

definition isdigit :: "char \<Rightarrow> bool" where
  "isdigit c = (c \<in> set ''0123456789'')"

fun digits_val :: "int \<Rightarrow> string \<Rightarrow> int" where
  "digits_val acc [] = acc"
| "digits_val acc (c # cs) = digits_val (10 * acc + int (of_char c - (48::nat))) cs"

text \<open>The digits of an integer literal: one or more digits, where single underscores
  may stand between two digits.\<close>

fun digit_groups :: "bool \<Rightarrow> string \<Rightarrow> bool" where
  "digit_groups prev_digit [] = prev_digit"
| "digit_groups prev_digit (c # cs) =
     (if isdigit c then digit_groups True cs
      else if c = CHR ''_'' \<and> prev_digit then digit_groups False cs
      else False)"

text \<open>The white space \<^verbatim>\<open>int()\<close> skips around a literal: tab to carriage return
  and the space, and the two white space characters beyond ASCII (which \<^verbatim>\<open>int()\<close>
  reads as spaces). The separators \<^verbatim>\<open>0x1C\<close> to \<^verbatim>\<open>0x1F\<close>, which \<^verbatim>\<open>split()\<close>
  treats as white space, are not skipped.\<close>

definition int_space :: "char \<Rightarrow> bool" where
  "int_space c = (c \<in> set [CHR '' '', CHR 0x09, CHR 0x0A, CHR 0x0B, CHR 0x0C, CHR 0x0D,
                             CHR 0x85, CHR 0xA0])"

text \<open>\<^verbatim>\<open>int(s)\<close> for a string, base ten (CPython 3.6 and later): white space before
  and after the literal is skipped, a sign is optional and is followed by the digits at
  once, and a literal of more than 4300 digits is refused (the default limit);
  \<open>None\<close> stands for the \<^verbatim>\<open>ValueError\<close>.\<close>

definition py_int_str :: "string \<Rightarrow> int option" where
  "py_int_str s =
     (let t = dropWhile int_space s;
          (neg, r) = (case t of
                        c # cs \<Rightarrow> if c = CHR ''-'' then (True, cs)
                                  else if c = CHR ''+'' then (False, cs) else (False, t)
                      | [] \<Rightarrow> (False, t));
          body = rev (dropWhile int_space (rev r))
      in if digit_groups False body \<and> length (filter isdigit body) \<le> 4300
         then (let v = digits_val 0 (filter isdigit body) in Some (if neg then - v else v))
         else None)"

datatype py_exception =
    Exception string
  | PedError string
  | ValueError string
  | TypeError string
  | IndexError string

text \<open>A value handed to \<^verbatim>\<open>int()\<close>: the parser passes the strings of a line's
  columns, other callers pass Python integers.\<close>

datatype pyval = PyStr string | PyInt int

text \<open>The \<^verbatim>\<open>ValueError\<close> of \<^verbatim>\<open>int()\<close> carries the string that was refused (the
  message Python builds from it is not modelled).\<close>

definition py_int :: "pyval \<Rightarrow> py_exception + int" where
  "py_int v =
     (case v of
        PyInt n \<Rightarrow> Inr n
      | PyStr s \<Rightarrow> (case py_int_str s of
                     None \<Rightarrow> Inl (ValueError s)
                   | Some n \<Rightarrow> Inr n))"

section \<open>ped\_file.py: Individual\<close>

text \<open>
  An element of the lists \<^verbatim>\<open>siblings\<close>, \<^verbatim>\<open>half_siblings\<close> and
  \<^verbatim>\<open>children\<close>: \<^verbatim>\<open>Family.add_individual\<close> appends identifiers, and
  \<^verbatim>\<open>Individual.__init__\<close> appends its whole list argument as one element.
\<close>

datatype entry = Iid string | Group "string list"

record individual =
  fid :: string
  iid :: string
  father :: string
  mother :: string
  sex :: int
  phenotype :: int
  siblings :: "entry list"
  half_siblings :: "entry list"
  children :: "entry list"

text \<open>\<^verbatim>\<open>Individual.__init__\<close>. The \<^verbatim>\<open>ValueError\<close> of \<^verbatim>\<open>int(sex)\<close> is caught
  and gives sex 0; the one of \<^verbatim>\<open>int(phenotype)\<close> is not caught.\<close>

definition Individual_init ::
  "string \<Rightarrow> string \<Rightarrow> string \<Rightarrow> string \<Rightarrow> pyval \<Rightarrow> pyval \<Rightarrow>
   string list \<Rightarrow> string list \<Rightarrow> string list \<Rightarrow> py_exception + individual" where
  "Individual_init f i fa mo sx ph sibs hsibs chn =
     (case (case py_int sx of
              Inr n \<Rightarrow> Inr n
            | Inl e \<Rightarrow> (case e of ValueError m \<Rightarrow> Inr 0 | _ \<Rightarrow> Inl e)) of
        Inl e \<Rightarrow> Inl e
      | Inr s \<Rightarrow>
          (case py_int ph of
             Inl e \<Rightarrow> Inl e
           | Inr p \<Rightarrow>
               Inr \<lparr>fid = f, iid = i, father = fa, mother = mo, sex = s, phenotype = p,
                    siblings = (if sibs \<noteq> [] then [] @ [Group sibs] else []),
                    half_siblings = (if hsibs \<noteq> [] then [] @ [Group hsibs] else []),
                    children = (if chn \<noteq> [] then [] @ [Group chn] else [])\<rparr>))"

definition is_affected :: "individual \<Rightarrow> bool" where
  "is_affected i = (phenotype i = 2)"

definition is_unaffected :: "individual \<Rightarrow> bool" where
  "is_unaffected i = (phenotype i = 1)"

definition is_unknown_phenotype :: "individual \<Rightarrow> bool" where
  "is_unknown_phenotype i = (phenotype i \<noteq> 1 \<and> phenotype i \<noteq> 2)"

definition is_male :: "individual \<Rightarrow> bool" where
  "is_male i = (sex i = 1)"

definition is_female :: "individual \<Rightarrow> bool" where
  "is_female i = (sex i = 2)"

definition is_unknown_gender :: "individual \<Rightarrow> bool" where
  "is_unknown_gender i = (sex i \<noteq> 1 \<and> sex i \<noteq> 2)"

section \<open>ped\_file.py: Family\<close>

text \<open>
  A Python \<^verbatim>\<open>dict\<close> is an association list in insertion order with distinct keys:
  \<open>map_of\<close> reads a key and \<open>AList.update\<close> stores one, in place when the key exists
  and at the end otherwise.

  The values of \<^verbatim>\<open>Family.individuals\<close> are the Individual objects themselves, so the
  appends of \<^verbatim>\<open>add_individual\<close> to a member's lists are updates of the stored member.
  \<^verbatim>\<open>individual.children = self.parents[p]\<close> shares one list between the two
  attributes; every later append to \<^verbatim>\<open>self.parents[p]\<close> is followed by the same
  assignment again, so the copy the model stores is the shared list.
\<close>

record family =
  fid :: string
  individuals :: "(string \<times> individual) list"
  parents :: "(string \<times> string list) list"
  founder :: "string option"

text \<open>The tests of the loop over \<^verbatim>\<open>self.individuals.values()\<close>: \<open>i\<close> is the
  member, \<open>n\<close> the individual being added.\<close>

definition same_parents :: "individual \<Rightarrow> individual \<Rightarrow> bool" where
  "same_parents i n =
     (mother i \<noteq> ''0'' \<and> mother i = mother n \<and> father i \<noteq> ''0'' \<and> father i = father n)"

definition one_parent :: "individual \<Rightarrow> individual \<Rightarrow> bool" where
  "one_parent i n =
     ((mother i \<noteq> ''0'' \<and> mother i = mother n) \<or> (father i \<noteq> ''0'' \<and> father i = father n))"

text \<open>The loop over the members: it returns the members, updated, and the new
  individual, updated.\<close>

fun relate :: "(string \<times> individual) list \<Rightarrow> individual \<Rightarrow>
    (string \<times> individual) list \<times> individual" where
  "relate [] n = ([], n)"
| "relate ((k, i) # rest) n =
     (if same_parents i n then
        (let (rest', n') = relate rest (n\<lparr>siblings := siblings n @ [Iid (iid i)]\<rparr>)
         in ((k, i\<lparr>siblings := siblings i @ [Iid (iid n)]\<rparr>) # rest', n'))
      else if one_parent i n then
        (let (rest', n') = relate rest (n\<lparr>half_siblings := half_siblings n @ [Iid (iid i)]\<rparr>)
         in ((k, i\<lparr>half_siblings := half_siblings i @ [Iid (iid n)]\<rparr>) # rest', n'))
      else
        (let (rest', n') = relate rest n in ((k, i) # rest', n')))"

text \<open>One round of the loop \<^verbatim>\<open>for parent in [individual.mother, individual.father]\<close>,
  for the child \<open>c\<close>.\<close>

definition add_parent :: "string \<Rightarrow> string \<Rightarrow> family \<Rightarrow> family" where
  "add_parent c parent fam =
     (if parent \<noteq> ''0'' then
        (let l = (case map_of (parents fam) parent of
                    None \<Rightarrow> [c]
                  | Some l0 \<Rightarrow> l0 @ [c]);
             fam1 = fam\<lparr>parents := AList.update parent l (parents fam)\<rparr>
         in case map_of (individuals fam1) parent of
              None \<Rightarrow> fam1
            | Some p \<Rightarrow>
                fam1\<lparr>individuals :=
                  AList.update parent (p\<lparr>children := map Iid l\<rparr>) (individuals fam1)\<rparr>)
      else fam)"

definition add_individual :: "family \<Rightarrow> individual \<Rightarrow> py_exception + family" where
  "add_individual fam n0 =
     (if iid n0 \<in> fst ` set (individuals fam) then
        Inl (PedError (''Duplicate individual '' @ [CHR 0x27] @ iid n0 @ [CHR 0x27] @
                       '' added to family '' @ [CHR 0x27] @ family.fid fam @ [CHR 0x27] @ ''.''))
      else
        (let n1 = n0\<lparr>individual.fid := family.fid fam\<rparr>;
             (members, n2) = relate (individuals fam) n1;
             fam1 = fam\<lparr>individuals := members\<rparr>;
             fam2 = add_parent (iid n2) (mother n2) fam1;
             fam3 = add_parent (iid n2) (father n2) fam2;
             n3 = (case map_of (parents fam3) (iid n2) of
                     None \<Rightarrow> n2
                   | Some l \<Rightarrow> n2\<lparr>children := map Iid l\<rparr>)
         in Inr (fam3\<lparr>individuals := AList.update (iid n3) n3 (individuals fam3)\<rparr>)))"

text \<open>The loop of \<^verbatim>\<open>Family.__init__\<close>; an exception ends it.\<close>

fun add_individuals :: "family \<Rightarrow> individual list \<Rightarrow> py_exception + family" where
  "add_individuals fam [] = Inr fam"
| "add_individuals fam (n # ns) =
     (case add_individual fam n of
        Inl e \<Rightarrow> Inl e
      | Inr fam' \<Rightarrow> add_individuals fam' ns)"

definition Family_init :: "string \<Rightarrow> individual list option \<Rightarrow> py_exception + family" where
  "Family_init f inds =
     (let fam = \<lparr>fid = f, individuals = [], parents = [], founder = None\<rparr>
      in case inds of
           None \<Rightarrow> Inr fam
         | Some ns \<Rightarrow> add_individuals fam ns)"

text \<open>A sequence of \<^verbatim>\<open>add_individual\<close> calls on one family. A call that raises has
  changed nothing before it raises, so a caller that catches the exception goes on with the
  family as it was.\<close>

fun add_individual_calls :: "family \<Rightarrow> individual list \<Rightarrow> family" where
  "add_individual_calls fam [] = fam"
| "add_individual_calls fam (n # ns) =
     (case add_individual fam n of
        Inl e \<Rightarrow> add_individual_calls fam ns
      | Inr fam' \<Rightarrow> add_individual_calls fam' ns)"

section \<open>ped\_file.py: PedFile\<close>

text \<open>
  \<^verbatim>\<open>PedFile.individuals\<close> holds the same Individual objects as the families do. The
  model keeps each object once, in its family, and the global index maps an individual
  identifier to the key of the family that holds the object.
\<close>

record pedfile =
  filename :: string
  families :: "(string \<times> family) list"
  individuals :: "(string \<times> string) list"

text \<open>The body of the loop of \<^verbatim>\<open>_parse_ped\<close> for one line of the file.\<close>

definition parse_line :: "pedfile \<Rightarrow> string \<Rightarrow> py_exception + pedfile" where
  "parse_line p line0 =
     (let line = rstrip line0 in
      if startswith line ''#'' then Inr p
      else if line = [] then Inr p
      else
        (let cols = split line in
         if length cols < 6 then
           Inl (Exception (''Not enough fields for PED file '' @ [CHR 0x27] @ filename p @
                           [CHR 0x27] @ ''.'' @ [CHR 0x0A] @ ''Offending line was: '' @ line))
         else
           (case Individual_init (cols ! 0) (cols ! 1) (cols ! 2) (cols ! 3)
                   (PyStr (cols ! 4)) (PyStr (cols ! 5)) [] [] [] of
              Inl e \<Rightarrow> Inl e
            | Inr indv \<Rightarrow>
                if iid indv \<in> fst ` set (pedfile.individuals p) then
                  Inl (PedError (''Duplicate individual ID '' @ [CHR 0x27] @ iid indv @
                                 [CHR 0x27] @ ''in PED file '' @ [CHR 0x27] @ filename p @
                                 [CHR 0x27] @ ''. '' @
                                 ''Please ensure all individual IDs are unique.''))
                else
                  (let p1 = p\<lparr>pedfile.individuals :=
                              AList.update (iid indv) (individual.fid indv)
                                (pedfile.individuals p)\<rparr>
                   in case map_of (families p1) (individual.fid indv) of
                        Some fam \<Rightarrow>
                          (case add_individual fam indv of
                             Inl e \<Rightarrow> Inl e
                           | Inr fam' \<Rightarrow>
                               Inr (p1\<lparr>families :=
                                      AList.update (individual.fid indv) fam' (families p1)\<rparr>))
                      | None \<Rightarrow>
                          (case Family_init (individual.fid indv) (Some [indv]) of
                             Inl e \<Rightarrow> Inl e
                           | Inr fam \<Rightarrow>
                               Inr (p1\<lparr>families :=
                                      AList.update (individual.fid indv) fam (families p1)\<rparr>))))))"

fun parse_ped :: "pedfile \<Rightarrow> string list \<Rightarrow> py_exception + pedfile" where
  "parse_ped p [] = Inr p"
| "parse_ped p (l # ls) =
     (case parse_line p l of
        Inl e \<Rightarrow> Inl e
      | Inr p' \<Rightarrow> parse_ped p' ls)"

text \<open>\<^verbatim>\<open>PedFile.__init__\<close>, on the lines of the opened file.\<close>

definition PedFile_init :: "string \<Rightarrow> string list \<Rightarrow> py_exception + pedfile" where
  "PedFile_init name lines =
     parse_ped \<lparr>filename = name, families = [], individuals = []\<rparr> lines"

section \<open>Variant records and the collaborators of the runners\<close>

text \<open>
  A variant record comes from the VCF parser, which is not part of this repository. The
  model keeps the attributes the runners read. \<open>ident\<close> is the identity of the Python
  object: the parser yields a new object for every line, and two records of one stream can
  agree in every attribute. A functional annotation entry of \<^verbatim>\<open>record.CSQ\<close> is read only
  through its key \<^verbatim>\<open>'Feature'\<close>.
\<close>

record csq =
  Feature :: string

record vcf_record =
  ident :: nat
  CHROM :: string
  POS :: nat
  REF :: string
  ALT :: string
  ALLELES :: "string list"
  CSQ :: "csq list"

text \<open>\<^verbatim>\<open>str\<close> of a position.\<close>

fun str_nat :: "nat \<Rightarrow> string" where
  "str_nat n =
     (if n < 10 then [''0123456789'' ! n]
      else str_nat (n div 10) @ [''0123456789'' ! (n mod 10)])"

declare str_nat.simps [simp del]

text \<open>
  What the filters and checkers outside this repository answer for one record: the value
  of \<^verbatim>\<open>filter_global\<close>, the allele verdicts and the consequence mask of
  \<^verbatim>\<open>filter_alleles_external\<close>, the answer of the sample filter for an allele index,
  the allele verdicts \<^verbatim>\<open>dom_filter\<close> returns (vape), the hits of the three inheritance
  checkers, and the keys of the mappings their resolution methods return for a value of
  \<^verbatim>\<open>final\<close>. A field is read only where the runner makes the call.
\<close>

record collaborators =
  global_fail :: bool
  filter_alleles :: "bool list"
  filter_csq :: "bool list option"
  sample_r :: "nat \<Rightarrow> bool"
  dom_filter_r :: "bool list"
  dom_hit :: bool
  denovo_hit :: bool
  recessive_hit :: bool
  process_potential_recessives :: "bool \<Rightarrow> string list"
  process_dominants :: "bool \<Rightarrow> string list"
  process_de_novos :: "bool \<Rightarrow> string list"

text \<open>\<^verbatim>\<open>sum(filter_alleles) == len(filter_alleles)\<close>\<close>

definition all_filtered :: "bool list \<Rightarrow> bool" where
  "all_filtered fa = (length (filter (\<lambda>b. b) fa) = length fa)"

datatype loop_result = Returned | Alleles "bool list"

text \<open>The loop over the allele indices under \<^verbatim>\<open>if self.sample_filter\<close>;
  \<open>Returned\<close> is the \<^verbatim>\<open>return\<close> inside it, and an index beyond the list is Python's
  \<^verbatim>\<open>IndexError\<close>.\<close>

fun sample_loop :: "(nat \<Rightarrow> bool) \<Rightarrow> nat list \<Rightarrow> bool list \<Rightarrow> py_exception + loop_result" where
  "sample_loop r [] fa = Inr (Alleles fa)"
| "sample_loop r (i # is) fa =
     (if r i \<and> \<not> i - 1 < length fa then Inl (IndexError ''list assignment index out of range'')
      else
        (let fa' = (if r i then fa[i - 1 := True] else fa)
         in if all_filtered fa' then Inr Returned else sample_loop r is fa'))"

section \<open>vase\_runner.py: VariantCache and CachedVariant\<close>

record cached_variant =
  record' :: vcf_record
  can_output :: bool
  var_id :: string

definition CachedVariant_init :: "vcf_record \<Rightarrow> bool \<Rightarrow> cached_variant" where
  "CachedVariant_init r co =
     \<lparr>record' = r, can_output = co,
      var_id = CHROM r @ '':'' @ str_nat (POS r) @ ''-'' @ REF r @ ''/'' @ ALT r\<rparr>"

record 'v variant_cache =
  cache :: "'v list"
  features :: "string set"
  output_ready :: "'v list"

definition VariantCache_init :: "'v variant_cache" where
  "VariantCache_init = \<lparr>cache = [], features = {}, output_ready = []\<rparr>"

definition these_feats :: "vcf_record \<Rightarrow> string set" where
  "these_feats r = set (map Feature (CSQ r))"

definition add_cache_to_output_ready :: "'v variant_cache \<Rightarrow> 'v variant_cache" where
  "add_cache_to_output_ready c = c\<lparr>output_ready := output_ready c @ cache c, cache := []\<rparr>"

definition check_record :: "vcf_record \<Rightarrow> 'v variant_cache \<Rightarrow> 'v variant_cache" where
  "check_record r c =
     (if features c \<noteq> {} \<and> these_feats r \<inter> features c = {}
      then (add_cache_to_output_ready c)\<lparr>features := {}\<rparr>
      else c)"

definition add_record ::
  "vcf_record \<Rightarrow> bool \<Rightarrow> cached_variant variant_cache \<Rightarrow> cached_variant variant_cache" where
  "add_record r co c =
     (let c1 = (if features c \<noteq> {} \<and> these_feats r \<inter> features c = {}
                then (add_cache_to_output_ready c)\<lparr>features := these_feats r\<rparr>
                else c\<lparr>features := features c \<union> these_feats r\<rparr>)
      in c1\<lparr>cache := cache c1 @ [CachedVariant_init r co]\<rparr>)"

section \<open>vape\_runner.py: VariantCache and CachedVariant\<close>

record vape_cached_variant = cached_variant +
  ignore_alleles :: "bool list"
  ignore_csq :: "bool list option"

definition vape_CachedVariant_init ::
  "vcf_record \<Rightarrow> bool list \<Rightarrow> bool list option \<Rightarrow> bool \<Rightarrow> vape_cached_variant" where
  "vape_CachedVariant_init r ia ic co =
     \<lparr>record' = r, can_output = co,
      var_id = CHROM r @ '':'' @ str_nat (POS r) @ ''-'' @ REF r @ ''/'' @ ALT r,
      ignore_alleles = ia, ignore_csq = ic\<rparr>"

definition vape_add_record ::
  "vcf_record \<Rightarrow> bool list \<Rightarrow> bool list option \<Rightarrow> bool \<Rightarrow>
   vape_cached_variant variant_cache \<Rightarrow> vape_cached_variant variant_cache" where
  "vape_add_record r ia ic co c =
     (let c1 = (if features c \<noteq> {} \<and> these_feats r \<inter> features c = {}
                then c\<lparr>output_ready := cache c, cache := [], features := these_feats r\<rparr>
                else c\<lparr>features := features c \<union> these_feats r\<rparr>)
      in c1\<lparr>cache := cache c1 @ [vape_CachedVariant_init r ia ic co]\<rparr>)"

section \<open>vape\_runner.py: VapeRunner\<close>

record vape_runner =
  sample_filter :: bool
  recessive_filter :: bool
  variant_cache :: "vape_cached_variant variant_cache"
  out :: "vcf_record list"

text \<open>The loop over \<^verbatim>\<open>output_ready\<close> (and, in \<^verbatim>\<open>finish_up\<close>, the cache).\<close>

fun vape_write_ready ::
  "string set \<Rightarrow> vape_cached_variant list \<Rightarrow> vape_runner \<Rightarrow> vape_runner" where
  "vape_write_ready rec_ids [] s = s"
| "vape_write_ready rec_ids (var # vars) s =
     vape_write_ready rec_ids vars
       (if can_output var \<or> var_id var \<in> rec_ids
        then s\<lparr>vape_runner.out := vape_runner.out s @ [record' var]\<rparr>
        else s)"

text \<open>The two steps of \<^verbatim>\<open>VapeRunner.process_record\<close> under
  \<^verbatim>\<open>if self.recessive_filter\<close>: the record goes to the cache when the recessive
  checker reports a hit (\<^verbatim>\<open>dom_hit\<close> is the constant \<^verbatim>\<open>False\<close>), and the records
  that are ready are written. \<^verbatim>\<open>dom_filter\<close> updates the list of allele verdicts in
  place and returns it, so the cached variant holds the list it returns;
  \<^verbatim>\<open>process_potential_recessives\<close> is called without \<^verbatim>\<open>final\<close>.\<close>

definition vape_cache_record :: "vape_runner \<Rightarrow> vcf_record \<Rightarrow> collaborators \<Rightarrow> vape_runner" where
  "vape_cache_record s r u =
     (let h_dom = False
      in if recessive_hit u \<or> h_dom
         then s\<lparr>vape_runner.variant_cache :=
                vape_add_record r (dom_filter_r u) (filter_csq u) h_dom
                  (vape_runner.variant_cache s)\<rparr>
         else s)"

definition vape_output_ready :: "vape_runner \<Rightarrow> collaborators \<Rightarrow> vape_runner" where
  "vape_output_ready s u =
     (let rec_ids = set (process_potential_recessives u False);
          s1 = vape_write_ready rec_ids (output_ready (vape_runner.variant_cache s)) s
      in s1\<lparr>vape_runner.variant_cache :=
             (vape_runner.variant_cache s1)\<lparr>output_ready := []\<rparr>\<rparr>)"

text \<open>\<^verbatim>\<open>VapeRunner.process_record\<close>.\<close>

definition vape_process_record ::
  "vape_runner \<Rightarrow> vcf_record \<Rightarrow> collaborators \<Rightarrow> py_exception + vape_runner" where
  "vape_process_record s r u =
     (if global_fail u then Inr s
      else if all_filtered (filter_alleles u) then Inr s
      else
        (case (if vape_runner.sample_filter s
               then sample_loop (sample_r u) [1..<length (ALLELES r)] (filter_alleles u)
               else Inr (Alleles (filter_alleles u))) of
           Inl e \<Rightarrow> Inl e
         | Inr Returned \<Rightarrow> Inr s
         | Inr (Alleles fa) \<Rightarrow>
             (if vape_runner.recessive_filter s then
                (let s1 = vape_cache_record s r u
                 in if output_ready (vape_runner.variant_cache s1) \<noteq> []
                    then Inr (vape_output_ready s1 u)
                    else Inr s1)
              else if all_filtered (dom_filter_r u) then Inr s
              else Inr (s\<lparr>vape_runner.out := vape_runner.out s @ [r]\<rparr>))))"

definition vape_finish_up :: "vape_runner \<Rightarrow> collaborators \<Rightarrow> vape_runner" where
  "vape_finish_up s u =
     (if vape_runner.recessive_filter s then
        (let rec_ids = set (process_potential_recessives u False);
             s1 = vape_write_ready rec_ids
                    (output_ready (vape_runner.variant_cache s) @
                     cache (vape_runner.variant_cache s)) s
         in s1\<lparr>vape_runner.variant_cache :=
                (vape_runner.variant_cache s1)\<lparr>output_ready := []\<rparr>\<rparr>)
      else s)"

fun vape_process_records ::
  "vape_runner \<Rightarrow> (vcf_record \<times> collaborators) list \<Rightarrow> py_exception + vape_runner" where
  "vape_process_records s [] = Inr s"
| "vape_process_records s ((r, u) # rest) =
     (case vape_process_record s r u of
        Inl e \<Rightarrow> Inl e
      | Inr s' \<Rightarrow> vape_process_records s' rest)"

section \<open>vase\_runner.py: VaseRunner\<close>

text \<open>The command line options the modelled methods read. An option that takes a file
  name is \<open>None\<close> when it is absent, and \<open>given\<close> is the truth value Python gives
  it in a test.\<close>

definition given :: "string option \<Rightarrow> bool" where
  "given x = (x \<noteq> None \<and> x \<noteq> Some [])"

record args =
  ped :: "string option"
  de_novo :: bool
  biallelic :: bool
  dominant :: bool
  singleton_recessive :: "string list"
  singleton_dominant :: "string list"
  seg_controls :: "string list"
  min_families :: int
  burden_counts :: "string option"
  cases :: "string list"
  controls :: "string list"

text \<open>
  What the pedigree and the filter classes of vase (\<^verbatim>\<open>ped_file\<close>, \<^verbatim>\<open>family_filter\<close>;
  not among the source files) compute when the runner is built: the individual identifiers
  of the PED file, the \<^verbatim>\<open>affected\<close> samples of each inheritance filter, and the names
  of the header fields each filter asks for.
\<close>

record eligibility =
  ped_iids :: "string list"
  de_novo_affected :: "string list"
  recessive_affected :: "string list"
  dominant_affected :: "string list"
  de_novo_header_fields :: "string list"
  recessive_header_fields :: "string list"
  dominant_header_fields :: "string list"

text \<open>
  The runner. A filter attribute is \<open>True\<close> when the attribute holds a filter object and
  \<open>False\<close> when it is \<^verbatim>\<open>None\<close>. \<open>ped_file\<close> is \<^verbatim>\<open>self.ped\<close>, kept as the list of
  its individual identifiers. \<open>out\<close> lists the records written to the output stream, in
  order, and \<open>warnings\<close> the messages given to \<^verbatim>\<open>logger.warn\<close>.
\<close>

record vase_runner =
  args :: args
  ped_file :: "string list option"
  sample_filter :: bool
  burden_counter :: bool
  family_filter :: bool
  control_filter :: bool
  de_novo_filter :: bool
  dominant_filter :: bool
  recessive_filter :: bool
  use_cache :: bool
  variant_cache :: "cached_variant variant_cache"
  out :: "vcf_record list"
  var_written :: nat
  var_filtered :: nat
  warnings :: "string list"

text \<open>Modelled from the spec: \<^verbatim>\<open>add_individual\<close> of the pedigree of vase, whose file is
  not among the sources. Individual identifiers are unique in a pedigree, and adding an
  identifier that exists is a \<^verbatim>\<open>PedError\<close>.\<close>

definition ped_add_individual :: "string list \<Rightarrow> string \<Rightarrow> py_exception + string list" where
  "ped_add_individual ids s =
     (if s \<in> set ids then Inl (PedError (''Duplicate individual '' @ s)) else Inr (ids @ [s]))"

text \<open>The loop over \<^verbatim>\<open>args.seg_controls\<close>: a \<^verbatim>\<open>PedError\<close> is passed over.\<close>

fun add_seg_controls :: "string list \<Rightarrow> string list \<Rightarrow> string list" where
  "add_seg_controls ids [] = ids"
| "add_seg_controls ids (s # ss) =
     (case ped_add_individual ids s of
        Inl e \<Rightarrow> add_seg_controls ids ss
      | Inr ids' \<Rightarrow> add_seg_controls ids' ss)"

text \<open>The loop over the singleton samples when a PED file was given: a \<^verbatim>\<open>PedError\<close>
  becomes an exception. \<open>name\<close> is the file name of the pedigree.\<close>

fun add_singletons :: "string \<Rightarrow> string list \<Rightarrow> string list \<Rightarrow> py_exception + string list" where
  "add_singletons name ids [] = Inr ids"
| "add_singletons name ids (s # ss) =
     (case ped_add_individual ids s of
        Inl e \<Rightarrow>
          Inl (Exception (''Sample '' @ [CHR 0x27] @ s @ [CHR 0x27] @ '' specified as'' @
                          '' either --singleton_recessive or '' @
                          ''--singleton_dominant already exists in'' @
                          '' PED file '' @ name))
      | Inr ids' \<Rightarrow> add_singletons name ids' ss)"

text \<open>\<^verbatim>\<open>_get_family_filter\<close>. The samples of a Python set are walked in the order of
  their first occurrence in the two option lists; the appends to the inheritance patterns
  of the family filter change that object only.\<close>

definition get_family_filter :: "vase_runner \<Rightarrow> py_exception + vase_runner" where
  "get_family_filter s =
     (if family_filter s then Inr s
      else
        (let a = args s;
             singles = remdups (singleton_recessive a @ singleton_dominant a)
         in if ped_file s = None \<and> singleton_recessive a = [] \<and> singleton_dominant a = [] then
              Inl (Exception (''Inheritance filtering options require a '' @
                              ''PED file specified using --ped or else '' @
                              ''samples specified using '' @
                              ''--singleton_recessive or '' @
                              ''--singleton_dominant arguments''))
            else
              (let no_ped = (ped_file s = None);
                   ids0 = (case ped_file s of None \<Rightarrow> singles | Some ids \<Rightarrow> ids);
                   ids1 = add_seg_controls ids0 (seg_controls a)
               in if no_ped then Inr (s\<lparr>ped_file := Some ids1, family_filter := True\<rparr>)
                  else
                    (case add_singletons (case ped a of None \<Rightarrow> [] | Some n \<Rightarrow> n) ids1 singles of
                       Inl e \<Rightarrow> Inl e
                     | Inr ids2 \<Rightarrow> Inr (s\<lparr>ped_file := Some ids2, family_filter := True\<rparr>)))))"

definition get_control_filter :: "vase_runner \<Rightarrow> vase_runner" where
  "get_control_filter s = (if control_filter s then s else s\<lparr>control_filter := True\<rparr>)"

text \<open>The loop over a filter's header fields, which sets \<^verbatim>\<open>use_cache\<close> in its body.\<close>

fun header_loop :: "string list \<Rightarrow> vase_runner \<Rightarrow> vase_runner" where
  "header_loop [] s = s"
| "header_loop (f # fs) s =
     header_loop fs (if min_families (args s) > 1 then s\<lparr>use_cache := True\<rparr> else s)"

definition get_de_novo_filter :: "eligibility \<Rightarrow> vase_runner \<Rightarrow> py_exception + vase_runner" where
  "get_de_novo_filter el s0 =
     (case get_family_filter s0 of
        Inl e \<Rightarrow> Inl e
      | Inr s1 \<Rightarrow>
          (let s = (get_control_filter s1)\<lparr>de_novo_filter := True\<rparr>;
               msg = ''No samples fit a de novo model - can not use de novo '' @ ''filtering''
           in if de_novo_affected el = [] then
                (if \<not> biallelic (args s) \<and> \<not> dominant (args s) then
                   Inl (Exception (''Error: '' @ msg))
                 else
                   Inr (s\<lparr>warnings := warnings s @ [msg @ ''. Will continue with other models.''],
                          de_novo_filter := False\<rparr>))
              else Inr (header_loop (de_novo_header_fields el) s)))"

definition get_recessive_filter :: "eligibility \<Rightarrow> vase_runner \<Rightarrow> py_exception + vase_runner" where
  "get_recessive_filter el s0 =
     (case get_family_filter s0 of
        Inl e \<Rightarrow> Inl e
      | Inr s1 \<Rightarrow>
          (let s = s1\<lparr>recessive_filter := True\<rparr>;
               msg = ''No samples fit a recessive model - can not use biallelic'' @ '' filtering''
           in if recessive_affected el = [] then
                (if \<not> de_novo (args s) \<and> \<not> dominant (args s) then
                   Inl (Exception (''Error: '' @ msg))
                 else
                   Inr (s\<lparr>warnings := warnings s @ [msg @ ''. Will continue with other models.''],
                          recessive_filter := False\<rparr>))
              else Inr (s\<lparr>use_cache := True\<rparr>)))"

definition get_dominant_filter :: "eligibility \<Rightarrow> vase_runner \<Rightarrow> py_exception + vase_runner" where
  "get_dominant_filter el s0 =
     (case get_family_filter s0 of
        Inl e \<Rightarrow> Inl e
      | Inr s1 \<Rightarrow>
          (let s = (get_control_filter s1)\<lparr>dominant_filter := True\<rparr>;
               msg = ''No samples fit a dominant model - can not use dominant '' @ ''filtering''
           in if dominant_affected el = [] then
                (if \<not> biallelic (args s) \<and> \<not> de_novo (args s) then
                   Inl (Exception (''Error: '' @ msg))
                 else
                   Inr (s\<lparr>warnings := warnings s @ [msg @ ''. Will continue with other models.''],
                          dominant_filter := False\<rparr>))
              else Inr (header_loop (dominant_header_fields el) s)))"

definition check_got_inherit_filter :: "vase_runner \<Rightarrow> py_exception + vase_runner" where
  "check_got_inherit_filter s =
     (if (de_novo (args s) \<or> biallelic (args s) \<or> dominant (args s)) \<and>
         \<not> recessive_filter s \<and> \<not> de_novo_filter s \<and> \<not> dominant_filter s
      then Inl (Exception (''No inheritance filters could be created '' @
                           ''with current settings. Please check your '' @
                           ''ped/sample inputs or run without --biallelic'' @
                           ''/--dominant/--de_novo options.''))
      else Inr s)"

text \<open>\<^verbatim>\<open>VaseRunner.__init__\<close> from the pedigree on; reading the input, the annotation
  filters and the report files are left to their classes.\<close>

definition VaseRunner_init :: "args \<Rightarrow> eligibility \<Rightarrow> py_exception + vase_runner" where
  "VaseRunner_init a el =
     (let s0 = \<lparr>args = a,
                ped_file = (if given (ped a) then Some (ped_iids el) else None),
                sample_filter = (\<not> given (burden_counts a) \<and> (cases a \<noteq> [] \<or> controls a \<noteq> [])),
                burden_counter = given (burden_counts a),
                family_filter = False, control_filter = False, de_novo_filter = False,
                dominant_filter = False, recessive_filter = False, use_cache = False,
                variant_cache = VariantCache_init, out = [], var_written = 0,
                var_filtered = 0, warnings = []\<rparr>
      in case (if de_novo a then get_de_novo_filter el s0 else Inr s0) of
           Inl e \<Rightarrow> Inl e
         | Inr s1 \<Rightarrow>
             (case (if biallelic a \<or> singleton_recessive a \<noteq> []
                    then get_recessive_filter el s1 else Inr s1) of
                Inl e \<Rightarrow> Inl e
              | Inr s2 \<Rightarrow>
                  (case (if dominant a \<or> singleton_dominant a \<noteq> []
                         then get_dominant_filter el s2 else Inr s2) of
                     Inl e \<Rightarrow> Inl e
                   | Inr s3 \<Rightarrow> check_got_inherit_filter s3)))"

text \<open>The loop of \<^verbatim>\<open>output_cache\<close> over \<^verbatim>\<open>output_ready\<close>.\<close>

fun write_ready :: "string set \<Rightarrow> cached_variant list \<Rightarrow> vase_runner \<Rightarrow> vase_runner" where
  "write_ready keep_ids [] s = s"
| "write_ready keep_ids (var # vars) s =
     write_ready keep_ids vars
       (if can_output var \<or> var_id var \<in> keep_ids
        then s\<lparr>out := out s @ [record' var], var_written := var_written s + 1\<rparr>
        else s\<lparr>var_filtered := var_filtered s + 1\<rparr>)"

text \<open>The checkers \<^verbatim>\<open>output_cache\<close> resolves: the recessive one whenever it
  exists, the dominant and the de novo one when \<^verbatim>\<open>min_families\<close> exceeds 1.\<close>

definition resolves_recessive :: "vase_runner \<Rightarrow> bool" where
  "resolves_recessive s = recessive_filter s"

definition resolves_dominant :: "vase_runner \<Rightarrow> bool" where
  "resolves_dominant s = (dominant_filter s \<and> min_families (args s) > 1)"

definition resolves_de_novo :: "vase_runner \<Rightarrow> bool" where
  "resolves_de_novo s = (de_novo_filter s \<and> min_families (args s) > 1)"

text \<open>The set \<^verbatim>\<open>keep_ids\<close> after the three blocks that resolve the checkers.\<close>

definition keep_ids :: "vase_runner \<Rightarrow> collaborators \<Rightarrow> bool \<Rightarrow> string set" where
  "keep_ids s u final =
     (if resolves_recessive s then set (process_potential_recessives u final) else {}) \<union>
     (if resolves_dominant s then set (process_dominants u final) else {}) \<union>
     (if resolves_de_novo s then set (process_de_novos u final) else {})"

text \<open>
  \<^verbatim>\<open>output_cache\<close>. \<^verbatim>\<open>burden_vars\<close> is bound to the class \<^verbatim>\<open>dict\<close>, not to
  a dictionary: with a burden counter, the first assignment to one of its keys, in the
  block of the first checker that is resolved, is a \<^verbatim>\<open>TypeError\<close>, and so is the
  membership test in \<^verbatim>\<open>_burden_from_cache\<close> when no checker was resolved.
\<close>

definition output_cache :: "vase_runner \<Rightarrow> collaborators \<Rightarrow> bool \<Rightarrow> py_exception + vase_runner" where
  "output_cache s u final =
     (if burden_counter s \<and> (resolves_recessive s \<or> resolves_dominant s \<or> resolves_de_novo s)
      then
        Inl (TypeError ([CHR 0x27] @ ''type'' @ [CHR 0x27] @
                        '' object does not support item assignment''))
      else
        (let s1 = (if final
                   then s\<lparr>variant_cache := add_cache_to_output_ready (variant_cache s)\<rparr>
                   else s);
             s2 = write_ready (keep_ids s u final) (output_ready (variant_cache s1)) s1
         in if burden_counter s then
              Inl (TypeError (''argument of type '' @ [CHR 0x27] @ ''type'' @ [CHR 0x27] @
                              '' is not iterable''))
            else Inr (s2\<lparr>variant_cache := (variant_cache s2)\<lparr>output_ready := []\<rparr>\<rparr>)))"

text \<open>The part of \<^verbatim>\<open>process_record\<close> under \<^verbatim>\<open>if self.use_cache\<close> that changes
  the cache, before the test of \<^verbatim>\<open>output_ready\<close>.\<close>

definition cache_record :: "vase_runner \<Rightarrow> vcf_record \<Rightarrow> bool \<Rightarrow> bool \<Rightarrow> bool \<Rightarrow> vase_runner" where
  "cache_record s r h_dn h_dom h_rec =
     (if h_dn \<or> h_dom \<or> h_rec then
        (let keep_record_anyway = (if min_families (args s) < 2 then h_dn \<or> h_dom else False)
         in s\<lparr>variant_cache := add_record r keep_record_anyway (variant_cache s)\<rparr>)
      else
        s\<lparr>variant_cache := check_record r (variant_cache s),
          var_filtered := var_filtered s + 1\<rparr>)"

text \<open>\<^verbatim>\<open>process_record\<close>. The verdicts of the control filter go to the dominant and
  the de novo checker only, whose answers are given; the counts of the burden counter are
  kept by that object.\<close>

definition process_record ::
  "vase_runner \<Rightarrow> vcf_record \<Rightarrow> collaborators \<Rightarrow> py_exception + vase_runner" where
  "process_record s r u =
     (if global_fail u then Inr (s\<lparr>var_filtered := var_filtered s + 1\<rparr>)
      else if all_filtered (filter_alleles u) then Inr (s\<lparr>var_filtered := var_filtered s + 1\<rparr>)
      else
        (case (if sample_filter s
               then sample_loop (sample_r u) [1..<length (ALLELES r)] (filter_alleles u)
               else Inr (Alleles (filter_alleles u))) of
           Inl e \<Rightarrow> Inl e
         | Inr Returned \<Rightarrow> Inr (s\<lparr>var_filtered := var_filtered s + 1\<rparr>)
         | Inr (Alleles fa) \<Rightarrow>
             (let h_dom = (dominant_filter s \<and> dom_hit u);
                  h_dn = (de_novo_filter s \<and> denovo_hit u);
                  h_rec = (recessive_filter s \<and> recessive_hit u)
              in if use_cache s then
                   (let s1 = cache_record s r h_dn h_dom h_rec
                    in if output_ready (variant_cache s1) \<noteq> [] then output_cache s1 u False
                       else Inr s1)
                 else if de_novo_filter s \<or> dominant_filter s then
                   (if h_dn \<or> h_dom
                    then Inr (s\<lparr>out := out s @ [r], var_written := var_written s + 1\<rparr>)
                    else Inr s)
                 else if all_filtered fa then Inr (s\<lparr>var_filtered := var_filtered s + 1\<rparr>)
                 else Inr (s\<lparr>var_written := var_written s + 1, out := out s @ [r]\<rparr>))))"

text \<open>\<^verbatim>\<open>finish_up\<close>; writing the burden counts and closing the report files change
  nothing of the runner.\<close>

definition finish_up :: "vase_runner \<Rightarrow> collaborators \<Rightarrow> py_exception + vase_runner" where
  "finish_up s u = (if use_cache s then output_cache s u True else Inr s)"

text \<open>The loop of \<^verbatim>\<open>run\<close> over the records of the input, each with the answers of
  the collaborators for it, and \<^verbatim>\<open>run\<close> itself, whose last argument holds the answers
  of the checkers at the end of the stream.\<close>

fun process_records ::
  "vase_runner \<Rightarrow> (vcf_record \<times> collaborators) list \<Rightarrow> py_exception + vase_runner" where
  "process_records s [] = Inr s"
| "process_records s ((r, u) # rest) =
     (case process_record s r u of
        Inl e \<Rightarrow> Inl e
      | Inr s' \<Rightarrow> process_records s' rest)"

definition run ::
  "vase_runner \<Rightarrow> (vcf_record \<times> collaborators) list \<Rightarrow> collaborators \<Rightarrow>
   py_exception + vase_runner" where
  "run s input u_end =
     (case process_records s input of
        Inl e \<Rightarrow> Inl e
      | Inr s' \<Rightarrow> finish_up s' u_end)"

section \<open>Notions used in the statements\<close>

text \<open>A cached variant passes a flush when its flag is set or its identifier is among
  the resolved ones.\<close>

definition passes :: "string set \<Rightarrow> 'a cached_variant_scheme \<Rightarrow> bool" where
  "passes ids var = (can_output var \<or> var_id var \<in> ids)"

text \<open>The variants \<^verbatim>\<open>output_cache\<close> walks over: the ones that are ready and, at the
  end of the stream, the ones still in the cache.\<close>

definition flushed :: "vase_runner \<Rightarrow> bool \<Rightarrow> cached_variant list" where
  "flushed s final =
     output_ready (variant_cache s) @ (if final then cache (variant_cache s) else [])"

text \<open>The records the cache of a runner holds, in either list.\<close>

definition held :: "vase_runner \<Rightarrow> vcf_record list" where
  "held s = map record' (cache (variant_cache s) @ output_ready (variant_cache s))"

definition vape_held :: "vape_runner \<Rightarrow> vcf_record list" where
  "vape_held s =
     map record' (cache (vape_runner.variant_cache s) @
                  output_ready (vape_runner.variant_cache s))"

text \<open>
  The bookkeeping of the cache after the records \<open>seen\<close> went through
  \<^verbatim>\<open>process_record\<close>: no object is held or written twice, what is held or written was
  seen, and every record seen is held, or counted as written, or counted as filtered.
\<close>

definition cache_inv :: "vcf_record list \<Rightarrow> vase_runner \<Rightarrow> bool" where
  "cache_inv seen s =
     (distinct (map ident (held s @ out s)) \<and>
      set (held s) \<union> set (out s) \<subseteq> set seen \<and>
      length seen = length (held s) + var_written s + var_filtered s \<and>
      var_written s = length (out s))"

definition vape_lists_inv :: "vcf_record list \<Rightarrow> vape_runner \<Rightarrow> bool" where
  "vape_lists_inv seen s =
     (distinct (map ident (vape_held s @ vape_runner.out s)) \<and>
      set (vape_held s) \<union> set (vape_runner.out s) \<subseteq> set seen)"

text \<open>
  vape keeps no counters. A call of \<^verbatim>\<open>process_record\<close> returns before the cache
  when the record or all of its alleles are filtered. The records a call gives up for
  good are the record itself, when the call does not put it into the cache, and the
  ready variants that the flush of the call does not write; \<open>vape_discarded\<close> collects
  them over the calls of a run.
\<close>

definition vape_before_cache :: "vape_runner \<Rightarrow> vcf_record \<Rightarrow> collaborators \<Rightarrow> bool" where
  "vape_before_cache s r u =
     (global_fail u \<or> all_filtered (filter_alleles u) \<or>
      (vape_runner.sample_filter s \<and>
       sample_loop (sample_r u) [1..<length (ALLELES r)] (filter_alleles u) = Inr Returned))"

definition vape_discards :: "vape_runner \<Rightarrow> vcf_record \<Rightarrow> collaborators \<Rightarrow> vcf_record list" where
  "vape_discards s r u =
     (if vape_before_cache s r u then [r]
      else (if recessive_hit u then [] else [r]) @
           map record' (filter (\<lambda>var. \<not> passes (set (process_potential_recessives u False)) var)
                          (output_ready (vape_runner.variant_cache (vape_cache_record s r u)))))"

fun vape_discarded :: "vape_runner \<Rightarrow> (vcf_record \<times> collaborators) list \<Rightarrow> vcf_record list" where
  "vape_discarded s [] = []"
| "vape_discarded s ((r, u) # rest) =
     (case vape_process_record s r u of
        Inl e \<Rightarrow> []
      | Inr s' \<Rightarrow> vape_discards s r u @ vape_discarded s' rest)"

text \<open>The bookkeeping of the cache of vape after the records \<open>seen\<close>, of which the
  records \<open>gone\<close> were given up: no object is held or written twice, and every record
  seen is held, or written, or given up.\<close>

definition vape_cache_inv :: "vcf_record list \<Rightarrow> vcf_record list \<Rightarrow> vape_runner \<Rightarrow> bool" where
  "vape_cache_inv seen gone s =
     (vape_lists_inv seen s \<and>
      mset seen = mset (vape_held s) + mset (vape_runner.out s) + mset gone)"

text \<open>A runner that has processed no record yet.\<close>

definition unstarted :: "args \<Rightarrow> vase_runner \<Rightarrow> bool" where
  "unstarted a s =
     (args s = a \<and> variant_cache s = VariantCache_init \<and> out s = [] \<and>
      var_written s = 0 \<and> var_filtered s = 0 \<and> burden_counter s = given (burden_counts a))"

section \<open>Sample inputs\<close>

definition rec_a :: vcf_record where
  "rec_a = \<lparr>ident = 0, CHROM = ''1'', POS = 1203, REF = ''A'', ALT = ''T,G'',
            ALLELES = [''A'', ''T'', ''G''],
            CSQ = [\<lparr>Feature = ''ENST1''\<rparr>, \<lparr>Feature = ''ENST2''\<rparr>]\<rparr>"

definition rec_b :: vcf_record where
  "rec_b = \<lparr>ident = 1, CHROM = ''1'', POS = 1310, REF = ''C'', ALT = ''T'',
            ALLELES = [''C'', ''T''], CSQ = [\<lparr>Feature = ''ENST2''\<rparr>]\<rparr>"

definition rec_c :: vcf_record where
  "rec_c = \<lparr>ident = 2, CHROM = ''1'', POS = 90210, REF = ''G'', ALT = ''A'',
            ALLELES = [''G'', ''A''], CSQ = [\<lparr>Feature = ''ENST7''\<rparr>]\<rparr>"

definition rec_d :: vcf_record where
  "rec_d = \<lparr>ident = 3, CHROM = ''2'', POS = 5, REF = ''G'', ALT = ''C'',
            ALLELES = [''G'', ''C''], CSQ = [\<lparr>Feature = ''ENST9''\<rparr>]\<rparr>"

definition args_rec :: args where
  "args_rec = \<lparr>ped = Some ''trio.ped'', de_novo = False, biallelic = True, dominant = False,
               singleton_recessive = [], singleton_dominant = [], seg_controls = [],
               min_families = 1, burden_counts = None, cases = [], controls = []\<rparr>"

definition elig_rec :: eligibility where
  "elig_rec = \<lparr>ped_iids = [''dad'', ''mum'', ''kid''], de_novo_affected = [],
               recessive_affected = [''kid''], dominant_affected = [],
               de_novo_header_fields = [], recessive_header_fields = [''VASE_biallelic_families''],
               dominant_header_fields = []\<rparr>"

definition runner_rec :: vase_runner where
  "runner_rec = \<lparr>args = args_rec, ped_file = Some [''dad'', ''mum'', ''kid''],
                 sample_filter = False, burden_counter = False, family_filter = True,
                 control_filter = False, de_novo_filter = False, dominant_filter = False,
                 recessive_filter = True, use_cache = True, variant_cache = VariantCache_init,
                 out = [], var_written = 0, var_filtered = 0, warnings = []\<rparr>"

definition answers :: "bool \<Rightarrow> string list \<Rightarrow> collaborators" where
  "answers hit ids =
     \<lparr>global_fail = False, filter_alleles = [False], filter_csq = None,
      sample_r = (\<lambda>i. False), dom_filter_r = [False], dom_hit = False, denovo_hit = False,
      recessive_hit = hit, process_potential_recessives = (\<lambda>final. ids),
      process_dominants = (\<lambda>final. []), process_de_novos = (\<lambda>final. [])\<rparr>"

definition stream :: "(vcf_record \<times> collaborators) list" where
  "stream = [(rec_a, answers True []), (rec_b, answers True []),
             (rec_c, answers True [''1:1203-A/T,G'']), (rec_d, answers True [])]"

definition rec_e :: vcf_record where
  "rec_e = \<lparr>ident = 4, CHROM = ''2'', POS = 77, REF = ''T'', ALT = ''C'',
            ALLELES = [''T'', ''C''], CSQ = [\<lparr>Feature = ''ENST9''\<rparr>]\<rparr>"

definition vape_runner_rec :: vape_runner where
  "vape_runner_rec = \<lparr>vape_runner.sample_filter = False,
                        vape_runner.recessive_filter = True,
                        vape_runner.variant_cache = VariantCache_init,
                        vape_runner.out = []\<rparr>"

definition args_burden :: args where
  "args_burden = args_rec\<lparr>burden_counts := Some ''counts.tsv''\<rparr>"

definition runner_burden :: vase_runner where
  "runner_burden = runner_rec\<lparr>args := args_burden, burden_counter := True\<rparr>"


section \<open>The list attributes of an individual as objects\<close>

text \<open>
  The record \<open>individual\<close> holds the lists of an individual as values. Whether a list
  is a new object, and whether its element is the argument itself or a copy of it, is a
  matter of the identity of Python lists. For that the lists live in a store: an address
  is an index of the store, and an element of a stored list is a string or the address of
  another list.
\<close>

type_synonym addr = nat

datatype item = Str string | Ref addr

type_synonym store = "item list list"

text \<open>The addresses of the three list attributes of one individual.\<close>

record list_attributes =
  siblings_at :: addr
  half_siblings_at :: addr
  children_at :: addr

text \<open>The list display \<^verbatim>\<open>[]\<close> makes a new object.\<close>

definition new_list :: "store \<Rightarrow> store \<times> addr" where
  "new_list h = (h @ [[]], length h)"

text \<open>\<^verbatim>\<open>l.append(x)\<close> on the list at address \<open>a\<close>.\<close>

definition append_at :: "addr \<Rightarrow> item \<Rightarrow> store \<Rightarrow> store" where
  "append_at a x h = h[a := h ! a @ [x]]"

text \<open>The last nine statements of \<^verbatim>\<open>Individual.__init__\<close>; \<open>sibs\<close>, \<open>hsibs\<close>
  and \<open>chn\<close> are the addresses of the three list arguments (for an omitted argument,
  the address of the default list of the function).\<close>

definition Individual_init_lists :: "store \<Rightarrow> addr \<Rightarrow> addr \<Rightarrow> addr \<Rightarrow> store \<times> list_attributes" where
  "Individual_init_lists h sibs hsibs chn =
     (let (h1, s) = new_list h;
          (h2, hs) = new_list h1;
          (h3, c) = new_list h2;
          h4 = (if h3 ! sibs \<noteq> [] then append_at s (Ref sibs) h3 else h3);
          h5 = (if h4 ! hsibs \<noteq> [] then append_at hs (Ref hsibs) h4 else h4);
          h6 = (if h5 ! chn \<noteq> [] then append_at c (Ref chn) h5 else h5)
      in (h6, \<lparr>siblings_at = s, half_siblings_at = hs, children_at = c\<rparr>))"

text \<open>Reading a stored list of strings, and the value of an element of a stored list.\<close>

fun strings_of :: "item list \<Rightarrow> string list" where
  "strings_of [] = []"
| "strings_of (Str s # xs) = s # strings_of xs"
| "strings_of (Ref a # xs) = strings_of xs"

definition resolve :: "store \<Rightarrow> item \<Rightarrow> entry" where
  "resolve h x = (case x of Str s \<Rightarrow> Iid s | Ref a \<Rightarrow> Group (strings_of (h ! a)))"

section \<open>Notions used in the statements about pedigrees\<close>

text \<open>The identifiers in the sibling and half-sibling lists of an individual.\<close>

definition sibling_ids :: "individual \<Rightarrow> string set" where
  "sibling_ids a = {x. Iid x \<in> set (siblings a)}"

definition half_sibling_ids :: "individual \<Rightarrow> string set" where
  "half_sibling_ids a = {x. Iid x \<in> set (half_siblings a)}"

text \<open>What one round of the loop of \<^verbatim>\<open>add_individual\<close> does to the member \<open>i\<close> when
  \<open>n\<close> is added.\<close>

definition link :: "individual \<Rightarrow> individual \<Rightarrow> individual" where
  "link i n =
     (if same_parents i n then i\<lparr>siblings := siblings i @ [Iid (iid n)]\<rparr>
      else if one_parent i n then i\<lparr>half_siblings := half_siblings i @ [Iid (iid n)]\<rparr>
      else i)"

text \<open>The invariant of the members of a family with identifier \<open>f\<close>: the keys are
  distinct and are the members' identifiers, every member carries \<open>f\<close>, the two relations
  stay among the members and are symmetric.\<close>

definition members_inv :: "string \<Rightarrow> (string \<times> individual) list \<Rightarrow> bool" where
  "members_inv f ms =
     (distinct (map fst ms) \<and>
      (\<forall>(k, a) \<in> set ms. iid a = k \<and> individual.fid a = f \<and>
         sibling_ids a \<union> half_sibling_ids a \<subseteq> fst ` set ms) \<and>
      (\<forall>(ka, a) \<in> set ms. \<forall>(kb, b) \<in> set ms.
         (kb \<in> sibling_ids a \<longleftrightarrow> ka \<in> sibling_ids b) \<and>
         (kb \<in> half_sibling_ids a \<longleftrightarrow> ka \<in> half_sibling_ids b)))"

text \<open>The members without their \<^verbatim>\<open>children\<close> lists, which the two relations do not
  read.\<close>

definition erase :: "(string \<times> individual) list \<Rightarrow> (string \<times> individual) list" where
  "erase ms = map (\<lambda>(k, i). (k, i\<lparr>children := []\<rparr>)) ms"

text \<open>A list that holds no identifier: what the constructor leaves in the lists of a new
  individual, whose only possible element is the list argument as a whole.\<close>

definition no_ids :: "entry list \<Rightarrow> bool" where
  "no_ids es = (\<forall>x. Iid x \<notin> set es)"

text \<open>A line of a PED file that is neither a comment nor blank, its columns, and the
  individual identifiers of the lines of a file.\<close>

definition data_line :: "string \<Rightarrow> bool" where
  "data_line l = (\<not> startswith (rstrip l) ''#'' \<and> rstrip l \<noteq> [])"

definition columns :: "string \<Rightarrow> string list" where
  "columns l = split (rstrip l)"

definition line_ids :: "string list \<Rightarrow> string list" where
  "line_ids ls = map (\<lambda>l. columns l ! 1) (filter data_line ls)"

section \<open>Sample pedigrees\<close>

definition kid1 :: individual where
  "kid1 = \<lparr>individual.fid = ''F1'', iid = ''kid1'', father = ''dad'', mother = ''mum'', sex = 1,
            phenotype = 2, siblings = [], half_siblings = [], children = []\<rparr>"

definition kid2 :: individual where
  "kid2 = \<lparr>individual.fid = ''F1'', iid = ''kid2'', father = ''dad'', mother = ''mum'', sex = 2,
            phenotype = 1, siblings = [], half_siblings = [], children = []\<rparr>"

definition kid3 :: individual where
  "kid3 = \<lparr>individual.fid = ''other'', iid = ''kid3'', father = ''dad'', mother = ''0'', sex = 0,
            phenotype = -9, siblings = [], half_siblings = [], children = []\<rparr>"

definition dad :: individual where
  "dad = \<lparr>individual.fid = ''F1'', iid = ''dad'', father = ''0'', mother = ''0'', sex = 1,
           phenotype = 1, siblings = [], half_siblings = [], children = []\<rparr>"

definition short_file :: "string list" where
  "short_file = [''# family individual father mother sex phenotype'', ''F1 dad 0 0 1 1'', [],
                 ''F1 mum 0 0 2'']"

definition repeated_file :: "string list" where
  "repeated_file = [''F1 dad 0 0 1 1'', ''F2 dad 0 0 2 1'']"

definition phenotype_file :: "string list" where
  "phenotype_file = [''F1 dad 0 0 1 1'', ''F2 dad 0 0 2 x'']"

section \<open>Notions used in the statements about the inheritance models\<close>

text \<open>The runner as \<^verbatim>\<open>VaseRunner.__init__\<close> has it before the inheritance filters
  are made.\<close>

definition VaseRunner_start :: "args \<Rightarrow> eligibility \<Rightarrow> vase_runner" where
  "VaseRunner_start a el =
     \<lparr>args = a,
      ped_file = (if given (ped a) then Some (ped_iids el) else None),
      sample_filter = (\<not> given (burden_counts a) \<and> (cases a \<noteq> [] \<or> controls a \<noteq> [])),
      burden_counter = given (burden_counts a),
      family_filter = False, control_filter = False, de_novo_filter = False,
      dominant_filter = False, recessive_filter = False, use_cache = False,
      variant_cache = VariantCache_init, out = [], var_written = 0,
      var_filtered = 0, warnings = []\<rparr>"




section \<open>Sample options\<close>

text \<open>A pedigree with no complete trio and one affected child: the options
  \<^verbatim>\<open>--de_novo --biallelic\<close>, and the options \<^verbatim>\<open>--de_novo --singleton_recessive s1\<close>;
  \<open>elig_none\<close> has no affected sample for any model.\<close>

definition args_two :: args where
  "args_two = \<lparr>ped = Some ''fam.ped'', de_novo = True, biallelic = True, dominant = False,
               singleton_recessive = [], singleton_dominant = [], seg_controls = [],
               min_families = 1, burden_counts = None, cases = [], controls = []\<rparr>"

definition elig_two :: eligibility where
  "elig_two = \<lparr>ped_iids = [''dad'', ''kid''], de_novo_affected = [],
               recessive_affected = [''kid''], dominant_affected = [],
               de_novo_header_fields = [], recessive_header_fields = [''VASE_biallelic_families''],
               dominant_header_fields = []\<rparr>"



definition args_single :: args where
  "args_single = args_two\<lparr>biallelic := False, singleton_recessive := [''s1'']\<rparr>"

definition elig_single :: eligibility where
  "elig_single = elig_two\<lparr>recessive_affected := [''s1'']\<rparr>"

section \<open>The variant cache\<close>

text \<open>
  Claim C1. \<^verbatim>\<open>add_record\<close>, in vase and in vape: when the features of the record are
  disjoint from a non-empty active feature set, the cached variants go to the list of
  variants ready for output (in vase behind the ones already there, in vape in their
  place), the active set becomes the features of the record, and the new variant is the
  only one in the cache; otherwise the new variant goes to the end of the cache and the
  active set grows by the features of the record. The new variant holds the record
  itself, the flag \<^verbatim>\<open>can_output\<close> it was given (in vape also the two lists it was
  given), and the identifier made of the record's position and alleles.
\<close>

theorem add_record_window:
  "add_record r co c =
     (if features c \<noteq> {} \<and> these_feats r \<inter> features c = {}
      then \<lparr>cache = [\<lparr>record' = r, can_output = co,
                       var_id = CHROM r @ '':'' @ str_nat (POS r) @ ''-'' @ REF r @ ''/'' @ ALT r\<rparr>],
            features = these_feats r,
            output_ready = output_ready c @ cache c\<rparr>
      else \<lparr>cache = cache c @
                     [\<lparr>record' = r, can_output = co,
                       var_id = CHROM r @ '':'' @ str_nat (POS r) @ ''-'' @ REF r @ ''/'' @ ALT r\<rparr>],
            features = features c \<union> these_feats r,
            output_ready = output_ready c\<rparr>) \<and>
   vape_add_record r ia ic co v =
     (if features v \<noteq> {} \<and> these_feats r \<inter> features v = {}
      then \<lparr>cache = [\<lparr>record' = r, can_output = co,
                       var_id = CHROM r @ '':'' @ str_nat (POS r) @ ''-'' @ REF r @ ''/'' @ ALT r,
                       ignore_alleles = ia, ignore_csq = ic\<rparr>],
            features = these_feats r,
            output_ready = cache v\<rparr>
      else \<lparr>cache = cache v @
                     [\<lparr>record' = r, can_output = co,
                       var_id = CHROM r @ '':'' @ str_nat (POS r) @ ''-'' @ REF r @ ''/'' @ ALT r,
                       ignore_alleles = ia, ignore_csq = ic\<rparr>],
            features = features v \<union> these_feats r,
            output_ready = output_ready v\<rparr>) \<and>
   record' (last (cache (add_record r co c))) = r \<and>
   can_output (last (cache (add_record r co c))) = co \<and>
   record' (last (cache (vape_add_record r ia ic co v))) = r \<and>
   can_output (last (cache (vape_add_record r ia ic co v))) = co"
  by (simp add: add_record_def vape_add_record_def add_cache_to_output_ready_def Let_def
      CachedVariant_init_def vape_CachedVariant_init_def)

text \<open>Three records through the cache of vase, the third one outside the features of the
  first two; two records through the cache of vape.\<close>

theorem add_record_window_witness:
  "add_record rec_c True (add_record rec_b False (add_record rec_a False VariantCache_init)) =
     \<lparr>cache = [\<lparr>record' = rec_c, can_output = True, var_id = ''1:90210-G/A''\<rparr>],
      features = {''ENST7''},
      output_ready = [\<lparr>record' = rec_a, can_output = False, var_id = ''1:1203-A/T,G''\<rparr>,
                      \<lparr>record' = rec_b, can_output = False, var_id = ''1:1310-C/T''\<rparr>]\<rparr> \<and>
   add_record rec_b False (add_record rec_a False VariantCache_init) =
     \<lparr>cache = [\<lparr>record' = rec_a, can_output = False, var_id = ''1:1203-A/T,G''\<rparr>,
               \<lparr>record' = rec_b, can_output = False, var_id = ''1:1310-C/T''\<rparr>],
      features = {''ENST1'', ''ENST2''}, output_ready = []\<rparr> \<and>
   vape_add_record rec_c [False] None False
       (vape_add_record rec_a [True, False] None False VariantCache_init) =
     \<lparr>cache = [\<lparr>record' = rec_c, can_output = False, var_id = ''1:90210-G/A'',
                 ignore_alleles = [False], ignore_csq = None\<rparr>],
      features = {''ENST7''},
      output_ready = [\<lparr>record' = rec_a, can_output = False, var_id = ''1:1203-A/T,G'',
                        ignore_alleles = [True, False], ignore_csq = None\<rparr>]\<rparr>"
proof -
  have a: "add_record rec_a False VariantCache_init =
     \<lparr>cache = [\<lparr>record' = rec_a, can_output = False, var_id = ''1:1203-A/T,G''\<rparr>],
      features = {''ENST1'', ''ENST2''}, output_ready = []\<rparr>"
    using add_record_window [of rec_a False VariantCache_init]
    by (simp add: VariantCache_init_def these_feats_def rec_a_def str_nat.simps)
  have b: "add_record rec_b False (add_record rec_a False VariantCache_init) =
     \<lparr>cache = [\<lparr>record' = rec_a, can_output = False, var_id = ''1:1203-A/T,G''\<rparr>,
               \<lparr>record' = rec_b, can_output = False, var_id = ''1:1310-C/T''\<rparr>],
      features = {''ENST1'', ''ENST2''}, output_ready = []\<rparr>"
    using add_record_window [of rec_b False "add_record rec_a False VariantCache_init"]
    unfolding a by (auto simp add: these_feats_def rec_b_def str_nat.simps)
  have c: "add_record rec_c True (add_record rec_b False (add_record rec_a False VariantCache_init)) =
     \<lparr>cache = [\<lparr>record' = rec_c, can_output = True, var_id = ''1:90210-G/A''\<rparr>],
      features = {''ENST7''},
      output_ready = [\<lparr>record' = rec_a, can_output = False, var_id = ''1:1203-A/T,G''\<rparr>,
                      \<lparr>record' = rec_b, can_output = False, var_id = ''1:1310-C/T''\<rparr>]\<rparr>"
    using add_record_window [of rec_c True
        "add_record rec_b False (add_record rec_a False VariantCache_init)"]
    unfolding b by (simp add: these_feats_def rec_c_def str_nat.simps)
  have va: "vape_add_record rec_a [True, False] None False VariantCache_init =
     \<lparr>cache = [\<lparr>record' = rec_a, can_output = False, var_id = ''1:1203-A/T,G'',
                 ignore_alleles = [True, False], ignore_csq = None\<rparr>],
      features = {''ENST1'', ''ENST2''}, output_ready = []\<rparr>"
    using add_record_window [where r = rec_a and ia = "[True, False]" and ic = None and
        co = False and v = VariantCache_init]
    by (simp add: VariantCache_init_def these_feats_def rec_a_def str_nat.simps)
  have vc: "vape_add_record rec_c [False] None False
       (vape_add_record rec_a [True, False] None False VariantCache_init) =
     \<lparr>cache = [\<lparr>record' = rec_c, can_output = False, var_id = ''1:90210-G/A'',
                 ignore_alleles = [False], ignore_csq = None\<rparr>],
      features = {''ENST7''},
      output_ready = [\<lparr>record' = rec_a, can_output = False, var_id = ''1:1203-A/T,G'',
                        ignore_alleles = [True, False], ignore_csq = None\<rparr>]\<rparr>"
    using add_record_window [where r = rec_c and ia = "[False]" and ic = None and
        co = False and v = "vape_add_record rec_a [True, False] None False VariantCache_init"]
    unfolding va by (simp add: these_feats_def rec_c_def str_nat.simps)
  from b c vc show ?thesis by simp
qed

text \<open>
  Claim C5. \<^verbatim>\<open>check_record\<close> never puts the record into the cache: the variants held,
  in the order ready-then-cached, are the same before and after. When the features of the
  record are disjoint from a non-empty active feature set, the cached variants go behind
  the ones ready for output, and the cache and the active set are emptied; otherwise
  nothing changes.
\<close>

theorem check_record_only_checks:
  "check_record r c =
     (if features c \<noteq> {} \<and> these_feats r \<inter> features c = {}
      then \<lparr>cache = [], features = {}, output_ready = output_ready c @ cache c\<rparr>
      else c) \<and>
   output_ready (check_record r c) @ cache (check_record r c) = output_ready c @ cache c"
  by (simp add: check_record_def add_cache_to_output_ready_def)

theorem check_record_only_checks_witness:
  "check_record rec_c (add_record rec_a False VariantCache_init) =
     \<lparr>cache = [], features = {}, output_ready = [CachedVariant_init rec_a False]\<rparr> \<and>
   check_record rec_b (add_record rec_a False VariantCache_init) =
     add_record rec_a False VariantCache_init"
  using check_record_only_checks [of rec_c "add_record rec_a False VariantCache_init"]
    check_record_only_checks [of rec_b "add_record rec_a False VariantCache_init"]
  by (simp add: add_record_def VariantCache_init_def these_feats_def rec_a_def rec_b_def
      rec_c_def)

section \<open>Flushing the cache and the bookkeeping of a run\<close>

lemma write_ready_eq:
  "write_ready ids vars s =
     s\<lparr>out := out s @ map record' (filter (passes ids) vars),
       var_written := var_written s + length (filter (passes ids) vars),
       var_filtered := var_filtered s + length (filter (\<lambda>v. \<not> passes ids v) vars)\<rparr>"
  by (induction vars arbitrary: s) (simp_all add: passes_def)

lemma output_cache_ok:
  assumes "\<not> burden_counter s"
  shows "output_cache s u final =
     Inr (s\<lparr>variant_cache :=
             \<lparr>cache = (if final then [] else cache (variant_cache s)),
              features = features (variant_cache s), output_ready = []\<rparr>,
           out := out s @ map record' (filter (passes (keep_ids s u final)) (flushed s final)),
           var_written := var_written s + length (filter (passes (keep_ids s u final)) (flushed s final)),
           var_filtered := var_filtered s +
              length (filter (\<lambda>v. \<not> passes (keep_ids s u final) v) (flushed s final))\<rparr>)"
proof (cases final)
  case True
  with assms show ?thesis
    by (simp add: output_cache_def write_ready_eq add_cache_to_output_ready_def flushed_def Let_def)
next
  case False
  with assms show ?thesis
    by (simp add: output_cache_def write_ready_eq flushed_def Let_def)
qed



lemma output_cache_burden:
  "burden_counter s \<Longrightarrow> \<exists>m. output_cache s u final = Inl (TypeError m)"
  by (simp add: output_cache_def Let_def)

lemma output_cache_Inr:
  assumes "output_cache s u final = Inr s'"
  shows "\<not> burden_counter s"
  using assms output_cache_burden[of s u final] by auto

lemma length_filter_split: "length (filter P xs) + length (filter (\<lambda>v. \<not> P v) xs) = length xs"
  by (induction xs) auto

lemma flush_inv:
  assumes inv: "cache_inv seen s" and oc: "output_cache s u final = Inr s'"
  shows "cache_inv seen s' \<and> output_ready (variant_cache s') = [] \<and> use_cache s' = use_cache s
     \<and> (final \<longrightarrow> cache (variant_cache s') = [])"
proof -
  have nb: "\<not> burden_counter s" using oc by (rule output_cache_Inr)
  let ?P = "passes (keep_ids s u final)"
  let ?C = "cache (variant_cache s)" and ?R = "output_ready (variant_cache s)"
  let ?C' = "if final then [] else ?C"
  let ?F = "flushed s final"
  from output_cache_ok[OF nb, of u final] oc
  have h: "held s' = map record' ?C'"
    and o: "out s' = out s @ map record' (filter ?P ?F)"
    and w: "var_written s' = var_written s + length (filter ?P ?F)"
    and f: "var_filtered s' = var_filtered s + length (filter (\<lambda>v. \<not> ?P v) ?F)"
    and r: "output_ready (variant_cache s') = []"
    and uc: "use_cache s' = use_cache s"
    and c: "final \<longrightarrow> cache (variant_cache s') = []"
    by (auto simp: held_def)
  have hs: "held s = map record' ?C @ map record' ?R" by (simp add: held_def)
  from inv have d: "distinct (map ident (map record' ?C @ map record' ?R @ out s))"
    and sub: "set (map record' ?C) \<union> set (map record' ?R) \<union> set (out s) \<subseteq> set seen"
    and len: "length seen = length ?C + length ?R + var_written s + var_filtered s"
    and wl: "var_written s = length (out s)"
    by (auto simp: cache_inv_def hs)
  have d': "distinct (map ident (map record' ?C' @ out s @ map record' (filter ?P ?F)))"
    using d by (auto simp: distinct_map_filter flushed_def)
  have sub': "set (map record' ?C') \<union> set (out s @ map record' (filter ?P ?F)) \<subseteq> set seen"
    using sub by (auto simp: flushed_def)
  have "length ?C' + length ?F = length ?C + length ?R" by (simp add: flushed_def)
  then have len': "length seen = length ?C' + (var_written s + length (filter ?P ?F)) +
      (var_filtered s + length (filter (\<lambda>v. \<not> ?P v) ?F))"
    using len length_filter_split[of ?P ?F] by simp
  show ?thesis
    unfolding cache_inv_def h o w f using d' sub' len' wl r uc c by simp
qed

lemma held_add_record:
  "mset (map record' (cache (add_record r co c) @ output_ready (add_record r co c))) =
   mset (map record' (cache c @ output_ready c)) + {#r#}"
  by (simp add: add_record_def add_cache_to_output_ready_def CachedVariant_init_def Let_def)

lemma held_check_record:
  "mset (map record' (cache (check_record r c) @ output_ready (check_record r c))) =
   mset (map record' (cache c @ output_ready c))"
  by (simp add: check_record_def add_cache_to_output_ready_def)

lemma cache_inv_mset:
  "cache_inv seen s \<longleftrightarrow>
     distinct (map ident (held s @ out s)) \<and>
      set_mset (mset (held s)) \<union> set (out s) \<subseteq> set seen \<and>
      length seen = size (mset (held s)) + var_written s + var_filtered s \<and>
      var_written s = length (out s)"
  by (simp add: cache_inv_def)

lemma distinct_map_mset_cong:
  "mset xs = mset ys \<Longrightarrow> distinct (map f (xs @ zs)) = distinct (map f (ys @ zs))"
proof -
  assume "mset xs = mset ys"
  then have "mset (map f (xs @ zs)) = mset (map f (ys @ zs))" by simp
  then show ?thesis by (rule mset_eq_imp_distinct_iff)
qed

lemma cache_record_inv:
  assumes inv: "cache_inv seen s" and new: "ident r \<notin> ident ` set seen"
  shows "cache_inv (seen @ [r]) (cache_record s r h_dn h_dom h_rec) \<and>
         use_cache (cache_record s r h_dn h_dom h_rec) = use_cache s"
proof (cases "h_dn \<or> h_dom \<or> h_rec")
  case True
  let ?s' = "cache_record s r h_dn h_dom h_rec"
  obtain co where s': "?s' = s\<lparr>variant_cache := add_record r co (variant_cache s)\<rparr>"
    using True by (simp add: cache_record_def Let_def)
  have m: "mset (held ?s') = mset (held s @ [r])"
    unfolding s' held_def using held_add_record[of r co "variant_cache s"] by simp
  have o: "out ?s' = out s" "var_written ?s' = var_written s" "var_filtered ?s' = var_filtered s"
    "use_cache ?s' = use_cache s"
    unfolding s' by simp_all
  from inv new have nin: "ident r \<notin> ident ` (set (held s) \<union> set (out s))"
    by (auto simp: cache_inv_def)
  have d: "distinct (map ident (held ?s' @ out s)) = distinct (map ident ((held s @ [r]) @ out s))"
    by (rule distinct_map_mset_cong[OF m])
  have "distinct (map ident ((held s @ [r]) @ out s))"
    using inv nin by (auto simp: cache_inv_def)
  with d have d': "distinct (map ident (held ?s' @ out s))" by simp
  have st: "set (held ?s') = set (held s) \<union> {r}" using m by (metis mset_eq_setD set_append list.set(1) list.set(2) Un_insert_right sup_bot.right_neutral)
  have ln: "length (held ?s') = length (held s) + 1" using m by (metis mset_eq_length length_append_singleton Suc_eq_plus1)
  show ?thesis
    unfolding cache_inv_def o using d' st ln inv by (auto simp: cache_inv_def)
next
  case False
  let ?s' = "cache_record s r h_dn h_dom h_rec"
  have s': "?s' = s\<lparr>variant_cache := check_record r (variant_cache s),
          var_filtered := var_filtered s + 1\<rparr>"
    using False by (simp add: cache_record_def)
  have m: "mset (held ?s') = mset (held s)"
    unfolding s' held_def using held_check_record[of r "variant_cache s"] by simp
  have o: "out ?s' = out s" "var_written ?s' = var_written s" "var_filtered ?s' = var_filtered s + 1"
    "use_cache ?s' = use_cache s"
    unfolding s' by simp_all
  have d: "distinct (map ident (held ?s' @ out s)) = distinct (map ident (held s @ out s))"
    by (rule distinct_map_mset_cong[OF m])
  have st: "set (held ?s') = set (held s)" using m by (rule mset_eq_setD)
  have ln: "length (held ?s') = length (held s)" using m by (rule mset_eq_length)
  show ?thesis
    unfolding cache_inv_def o using d st ln inv by (auto simp: cache_inv_def)
qed



lemma process_record_cases:
  assumes "process_record s r u = Inr s'" and "use_cache s"
  shows "s' = s\<lparr>var_filtered := var_filtered s + 1\<rparr> \<or>
         (\<exists>h_dn h_dom h_rec.
            (output_ready (variant_cache (cache_record s r h_dn h_dom h_rec)) \<noteq> [] \<and>
             output_cache (cache_record s r h_dn h_dom h_rec) u False = Inr s') \<or>
            (output_ready (variant_cache (cache_record s r h_dn h_dom h_rec)) = [] \<and>
             s' = cache_record s r h_dn h_dom h_rec))"
proof (cases "global_fail u \<or> all_filtered (filter_alleles u)")
  case True
  have "process_record s r u = Inr (s\<lparr>var_filtered := var_filtered s + 1\<rparr>)"
  proof (cases "global_fail u")
    case True
    then show ?thesis unfolding process_record_def by simp
  next
    case False
    with True have "all_filtered (filter_alleles u)" by simp
    with False show ?thesis unfolding process_record_def by simp
  qed
  with assms show ?thesis by simp
next
  case False
  let ?l = "(if sample_filter s
               then sample_loop (sample_r u) [1..<length (ALLELES r)] (filter_alleles u)
               else Inr (Alleles (filter_alleles u)))"
  show ?thesis
  proof (cases ?l)
    case (Inl e)
    with False assms show ?thesis by (simp add: process_record_def)
  next
    case (Inr res)
    show ?thesis
    proof (cases res)
      case Returned
      with Inr False assms show ?thesis by (simp add: process_record_def)
    next
      case (Alleles fa)
      with Inr False assms show ?thesis
        by (simp add: process_record_def Let_def split: if_splits) blast+
    qed
  qed
qed

lemma cache_inv_filtered:
  "cache_inv seen s \<Longrightarrow> cache_inv (seen @ [r]) (s\<lparr>var_filtered := var_filtered s + 1\<rparr>)"
  by (auto simp: cache_inv_def held_def)

lemma process_record_inv:
  assumes uc: "use_cache s" and inv: "cache_inv seen s"
    and rdy: "output_ready (variant_cache s) = []"
    and new: "ident r \<notin> ident ` set seen"
    and pr: "process_record s r u = Inr s'"
  shows "cache_inv (seen @ [r]) s' \<and> output_ready (variant_cache s') = [] \<and> use_cache s'"
proof -
  from process_record_cases[OF pr uc]
  consider (filtered) "s' = s\<lparr>var_filtered := var_filtered s + 1\<rparr>"
    | (flush) h_dn h_dom h_rec where
        "output_cache (cache_record s r h_dn h_dom h_rec) u False = Inr s'"
    | (keep) h_dn h_dom h_rec where
        "output_ready (variant_cache (cache_record s r h_dn h_dom h_rec)) = []"
        "s' = cache_record s r h_dn h_dom h_rec"
    by blast
  then show ?thesis
  proof cases
    case filtered
    then show ?thesis using cache_inv_filtered[OF inv, of r] rdy uc by simp
  next
    case flush
    from cache_record_inv[OF inv new, of h_dn h_dom h_rec]
    have a: "cache_inv (seen @ [r]) (cache_record s r h_dn h_dom h_rec)"
      and b: "use_cache (cache_record s r h_dn h_dom h_rec)"
      using uc by simp_all
    from flush_inv[OF a flush] b show ?thesis by simp
  next
    case keep
    with cache_record_inv[OF inv new, of h_dn h_dom h_rec] uc show ?thesis by simp
  qed
qed

lemma process_records_inv:
  assumes "use_cache s" and "cache_inv seen s" and "output_ready (variant_cache s) = []"
    and "distinct (map ident (seen @ map fst input))"
    and "process_records s input = Inr s'"
  shows "cache_inv (seen @ map fst input) s' \<and> output_ready (variant_cache s') = [] \<and> use_cache s'"
  using assms
proof (induction input arbitrary: s seen)
  case Nil
  then show ?case by simp
next
  case (Cons ru input)
  obtain r u where ru: "ru = (r, u)" by (cases ru)
  from Cons.prems(5) ru obtain s1 where
    s1: "process_record s r u = Inr s1" and rest: "process_records s1 input = Inr s'"
    by (auto split: sum.splits)
  from Cons.prems(4) ru have new: "ident r \<notin> ident ` set seen" by auto
  from process_record_inv[OF Cons.prems(1) Cons.prems(2) Cons.prems(3) new s1]
  have i1: "cache_inv (seen @ [r]) s1" "output_ready (variant_cache s1) = []" "use_cache s1"
    by simp_all
  from Cons.prems(4) ru have d: "distinct (map ident ((seen @ [r]) @ map fst input))" by simp
  from Cons.IH[OF i1(3) i1(1) i1(2) d rest] ru show ?case by simp
qed



lemma vape_write_ready_eq:
  "vape_write_ready ids vars s =
     s\<lparr>vape_runner.out := vape_runner.out s @ map record' (filter (passes ids) vars)\<rparr>"
  by (induction vars arbitrary: s) (simp_all add: passes_def)

lemma vape_held_add_record:
  "output_ready c = [] \<Longrightarrow>
   mset (map record' (cache (vape_add_record r ia ic co c) @
                      output_ready (vape_add_record r ia ic co c))) =
   mset (map record' (cache c @ output_ready c)) + {#r#}"
  by (simp add: vape_add_record_def vape_CachedVariant_init_def Let_def)

lemma vape_cache_record_inv:
  assumes inv: "vape_lists_inv seen s" and rdy: "output_ready (vape_runner.variant_cache s) = []"
    and new: "ident r \<notin> ident ` set seen"
  shows "vape_lists_inv (seen @ [r]) (vape_cache_record s r u) \<and>
         vape_runner.recessive_filter (vape_cache_record s r u) = vape_runner.recessive_filter s"
proof (cases "recessive_hit u")
  case True
  let ?s' = "vape_cache_record s r u"
  have s': "?s' = s\<lparr>vape_runner.variant_cache :=
                vape_add_record r (dom_filter_r u) (filter_csq u) False
                  (vape_runner.variant_cache s)\<rparr>"
    using True by (simp add: vape_cache_record_def)
  have m: "mset (vape_held ?s') = mset (vape_held s @ [r])"
    unfolding s' vape_held_def using vape_held_add_record[OF rdy, of r] by simp
  have o: "vape_runner.out ?s' = vape_runner.out s"
    "vape_runner.recessive_filter ?s' = vape_runner.recessive_filter s"
    unfolding s' by simp_all
  from inv new have nin: "ident r \<notin> ident ` (set (vape_held s) \<union> set (vape_runner.out s))"
    by (auto simp: vape_lists_inv_def)
  have d: "distinct (map ident (vape_held ?s' @ vape_runner.out s)) =
           distinct (map ident ((vape_held s @ [r]) @ vape_runner.out s))"
    by (rule distinct_map_mset_cong[OF m])
  have "distinct (map ident ((vape_held s @ [r]) @ vape_runner.out s))"
    using inv nin by (auto simp: vape_lists_inv_def)
  with d have d': "distinct (map ident (vape_held ?s' @ vape_runner.out s))" by simp
  have "set (vape_held ?s') = set (vape_held s @ [r])" using m by (rule mset_eq_setD)
  then have st: "set (vape_held ?s') = set (vape_held s) \<union> {r}" by simp
  show ?thesis
    unfolding vape_lists_inv_def o using d' st inv by (auto simp: vape_lists_inv_def)
next
  case False
  then have "vape_cache_record s r u = s" by (simp add: vape_cache_record_def)
  with inv show ?thesis by (auto simp: vape_lists_inv_def)
qed

lemma vape_output_ready_eq:
  "vape_output_ready s u =
     s\<lparr>vape_runner.out := vape_runner.out s @
          map record' (filter (passes (set (process_potential_recessives u False)))
                         (output_ready (vape_runner.variant_cache s))),
       vape_runner.variant_cache := (vape_runner.variant_cache s)\<lparr>output_ready := []\<rparr>\<rparr>"
  by (simp add: vape_output_ready_def vape_write_ready_eq Let_def)

lemma vape_output_ready_inv:
  assumes inv: "vape_lists_inv seen s"
  shows "vape_lists_inv seen (vape_output_ready s u) \<and>
         output_ready (vape_runner.variant_cache (vape_output_ready s u)) = [] \<and>
         vape_runner.recessive_filter (vape_output_ready s u) = vape_runner.recessive_filter s"
proof -
  let ?P = "passes (set (process_potential_recessives u False))"
  let ?C = "cache (vape_runner.variant_cache s)" and ?R = "output_ready (vape_runner.variant_cache s)"
  let ?s' = "vape_output_ready s u"
  have h: "vape_held ?s' = map record' ?C"
    and o: "vape_runner.out ?s' = vape_runner.out s @ map record' (filter ?P ?R)"
    and r: "output_ready (vape_runner.variant_cache ?s') = []"
    and rf: "vape_runner.recessive_filter ?s' = vape_runner.recessive_filter s"
    by (simp_all add: vape_output_ready_eq vape_held_def)
  from inv have d: "distinct (map ident (map record' ?C @ map record' ?R @ vape_runner.out s))"
    and sub: "set (map record' ?C) \<union> set (map record' ?R) \<union> set (vape_runner.out s) \<subseteq> set seen"
    by (auto simp: vape_lists_inv_def vape_held_def)
  have d': "distinct (map ident (map record' ?C @ vape_runner.out s @ map record' (filter ?P ?R)))"
    using d by (auto simp: distinct_map_filter)
  have sub': "set (map record' ?C) \<union> set (vape_runner.out s @ map record' (filter ?P ?R)) \<subseteq> set seen"
    using sub by auto
  show ?thesis unfolding vape_lists_inv_def h o using d' sub' r rf by simp
qed

lemma vape_process_record_cases:
  assumes "vape_process_record s r u = Inr s'" and "vape_runner.recessive_filter s"
  shows "s' = s \<or>
         (output_ready (vape_runner.variant_cache (vape_cache_record s r u)) \<noteq> [] \<and>
          s' = vape_output_ready (vape_cache_record s r u) u) \<or>
         (output_ready (vape_runner.variant_cache (vape_cache_record s r u)) = [] \<and>
          s' = vape_cache_record s r u)"
proof (cases "global_fail u \<or> all_filtered (filter_alleles u)")
  case True
  have "vape_process_record s r u = Inr s"
  proof (cases "global_fail u")
    case True
    then show ?thesis unfolding vape_process_record_def by simp
  next
    case False
    with True have "all_filtered (filter_alleles u)" by simp
    with False show ?thesis unfolding vape_process_record_def by simp
  qed
  with assms show ?thesis by simp
next
  case False
  let ?l = "(if vape_runner.sample_filter s
               then sample_loop (sample_r u) [1..<length (ALLELES r)] (filter_alleles u)
               else Inr (Alleles (filter_alleles u)))"
  show ?thesis
  proof (cases ?l)
    case (Inl e)
    with False assms show ?thesis by (simp add: vape_process_record_def)
  next
    case (Inr res)
    show ?thesis
    proof (cases res)
      case Returned
      with Inr False assms show ?thesis by (simp add: vape_process_record_def)
    next
      case (Alleles fa)
      with Inr False assms show ?thesis
        by (simp add: vape_process_record_def Let_def split: if_splits)
    qed
  qed
qed

lemma vape_process_record_inv:
  assumes rf: "vape_runner.recessive_filter s" and inv: "vape_lists_inv seen s"
    and rdy: "output_ready (vape_runner.variant_cache s) = []"
    and new: "ident r \<notin> ident ` set seen"
    and pr: "vape_process_record s r u = Inr s'"
  shows "vape_lists_inv (seen @ [r]) s' \<and> output_ready (vape_runner.variant_cache s') = [] \<and>
         vape_runner.recessive_filter s'"
proof -
  have mono: "vape_lists_inv (seen @ [r]) s" using inv by (auto simp: vape_lists_inv_def)
  note cr = vape_cache_record_inv[OF inv rdy new, of u]
  from vape_process_record_cases[OF pr rf]
  consider (same) "s' = s"
    | (flush) "s' = vape_output_ready (vape_cache_record s r u) u"
    | (keep) "output_ready (vape_runner.variant_cache (vape_cache_record s r u)) = []"
        "s' = vape_cache_record s r u"
    by blast
  then show ?thesis
  proof cases
    case same
    with mono rdy rf show ?thesis by simp
  next
    case flush
    from cr have a: "vape_lists_inv (seen @ [r]) (vape_cache_record s r u)" by simp
    from vape_output_ready_inv[OF a, of u] cr rf flush show ?thesis by simp
  next
    case keep
    with cr rf show ?thesis by simp
  qed
qed

lemma vape_process_records_inv:
  assumes "vape_runner.recessive_filter s" and "vape_lists_inv seen s"
    and "output_ready (vape_runner.variant_cache s) = []"
    and "distinct (map ident (seen @ map fst input))"
    and "vape_process_records s input = Inr s'"
  shows "vape_lists_inv (seen @ map fst input) s' \<and>
         output_ready (vape_runner.variant_cache s') = [] \<and> vape_runner.recessive_filter s'"
  using assms
proof (induction input arbitrary: s seen)
  case Nil
  then show ?case by simp
next
  case (Cons ru input)
  obtain r u where ru: "ru = (r, u)" by (cases ru)
  from Cons.prems(5) ru obtain s1 where
    s1: "vape_process_record s r u = Inr s1" and rest: "vape_process_records s1 input = Inr s'"
    by (auto split: sum.splits)
  from Cons.prems(4) ru have new: "ident r \<notin> ident ` set seen" by auto
  from vape_process_record_inv[OF Cons.prems(1) Cons.prems(2) Cons.prems(3) new s1]
  have i1: "vape_lists_inv (seen @ [r]) s1" "output_ready (vape_runner.variant_cache s1) = []"
    "vape_runner.recessive_filter s1"
    by simp_all
  from Cons.prems(4) ru have d: "distinct (map ident ((seen @ [r]) @ map fst input))" by simp
  from Cons.IH[OF i1(3) i1(1) i1(2) d rest] ru show ?case by simp
qed



lemma vape_process_record_eq:
  assumes pr: "vape_process_record s r u = Inr s'" and rf: "vape_runner.recessive_filter s"
  shows "(vape_before_cache s r u \<and> s' = s) \<or>
         (\<not> vape_before_cache s r u \<and>
          s' = (if output_ready (vape_runner.variant_cache (vape_cache_record s r u)) \<noteq> []
                then vape_output_ready (vape_cache_record s r u) u
                else vape_cache_record s r u))"
proof (cases "global_fail u \<or> all_filtered (filter_alleles u)")
  case True
  have "vape_process_record s r u = Inr s"
  proof (cases "global_fail u")
    case True
    then show ?thesis unfolding vape_process_record_def by simp
  next
    case False
    with True have "all_filtered (filter_alleles u)" by simp
    with False show ?thesis unfolding vape_process_record_def by simp
  qed
  with pr have e: "s' = s" by simp
  from True have b: "vape_before_cache s r u" unfolding vape_before_cache_def by blast
  from e b show ?thesis by blast
next
  case False
  let ?l = "(if vape_runner.sample_filter s
               then sample_loop (sample_r u) [1..<length (ALLELES r)] (filter_alleles u)
               else Inr (Alleles (filter_alleles u)))"
  show ?thesis
  proof (cases ?l)
    case (Inl e)
    with False pr show ?thesis by (simp add: vape_process_record_def)
  next
    case (Inr res)
    show ?thesis
    proof (cases res)
      case Returned
      with Inr False pr have "s' = s" by (simp add: vape_process_record_def)
      moreover from Returned Inr have "vape_before_cache s r u"
        by (simp add: vape_before_cache_def split: if_splits)
      ultimately show ?thesis by blast
    next
      case (Alleles fa)
      with Inr False have nb: "\<not> vape_before_cache s r u"
        by (auto simp: vape_before_cache_def split: if_splits)
      from Alleles Inr False pr rf
      have "s' = (if output_ready (vape_runner.variant_cache (vape_cache_record s r u)) \<noteq> []
                then vape_output_ready (vape_cache_record s r u) u
                else vape_cache_record s r u)"
        by (simp add: vape_process_record_def Let_def split: if_splits)
      with nb show ?thesis by blast
    qed
  qed
qed

lemma vape_cache_record_mset:
  assumes rdy: "output_ready (vape_runner.variant_cache s) = []"
  shows "mset (vape_held (vape_cache_record s r u)) =
           mset (vape_held s) + (if recessive_hit u then {#r#} else {#}) \<and>
         vape_runner.out (vape_cache_record s r u) = vape_runner.out s"
proof (cases "recessive_hit u")
  case True
  have s': "vape_cache_record s r u = s\<lparr>vape_runner.variant_cache :=
                vape_add_record r (dom_filter_r u) (filter_csq u) False
                  (vape_runner.variant_cache s)\<rparr>"
    using True by (simp add: vape_cache_record_def)
  show ?thesis
    unfolding s' vape_held_def using vape_held_add_record[OF rdy, of r] True by simp
next
  case False
  then have "vape_cache_record s r u = s" by (simp add: vape_cache_record_def)
  with False show ?thesis by simp
qed

lemma mset_filter_split: "mset (filter P xs) + mset (filter (\<lambda>x. \<not> P x) xs) = mset xs"
  by (induction xs) simp_all

lemma vape_process_record_mset:
  assumes rf: "vape_runner.recessive_filter s"
    and rdy: "output_ready (vape_runner.variant_cache s) = []"
    and pr: "vape_process_record s r u = Inr s'"
  shows "mset (vape_held s') + mset (vape_runner.out s') + mset (vape_discards s r u) =
         mset (vape_held s) + mset (vape_runner.out s) + {#r#}"
proof -
  let ?m = "vape_cache_record s r u"
  let ?P = "passes (set (process_potential_recessives u False))"
  let ?R = "output_ready (vape_runner.variant_cache ?m)"
  let ?C = "cache (vape_runner.variant_cache ?m)"
  from vape_process_record_eq[OF pr rf]
  consider (before) "vape_before_cache s r u" "s' = s"
    | (flush) "\<not> vape_before_cache s r u" "?R \<noteq> []" "s' = vape_output_ready ?m u"
    | (keep) "\<not> vape_before_cache s r u" "?R = []" "s' = ?m"
    by (auto split: if_splits)
  then show ?thesis
  proof cases
    case before
    then show ?thesis by (simp add: vape_discards_def)
  next
    case flush
    note m = vape_cache_record_mset[OF rdy, of r u]
    have h: "vape_held s' = map record' ?C"
      and o: "vape_runner.out s' = vape_runner.out s @ map record' (filter ?P ?R)"
      using m unfolding flush(3) by (simp_all add: vape_output_ready_eq vape_held_def)
    have d: "vape_discards s r u =
        (if recessive_hit u then [] else [r]) @ map record' (filter (\<lambda>v. \<not> ?P v) ?R)"
      using flush(1) by (simp add: vape_discards_def)
    have hm: "mset (vape_held ?m) = mset (map record' ?C) + mset (map record' ?R)"
      by (simp add: vape_held_def)
    have sp: "mset (map record' (filter ?P ?R)) + mset (map record' (filter (\<lambda>v. \<not> ?P v) ?R)) =
        mset (map record' ?R)"
      using mset_filter_split[of ?P ?R] by (metis image_mset_union mset_map)
    have "mset (vape_held s') + mset (vape_runner.out s') + mset (vape_discards s r u) =
        mset (map record' ?C) + mset (vape_runner.out s) +
        (mset (map record' (filter ?P ?R)) + mset (map record' (filter (\<lambda>v. \<not> ?P v) ?R))) +
        (if recessive_hit u then {#} else {#r#})"
      unfolding h o d by simp
    also have "\<dots> = mset (vape_held ?m) + mset (vape_runner.out s) +
        (if recessive_hit u then {#} else {#r#})"
      unfolding sp hm by simp
    also have "\<dots> = mset (vape_held s) + mset (vape_runner.out s) + {#r#}"
      using m by simp
    finally show ?thesis .
  next
    case keep
    note m = vape_cache_record_mset[OF rdy, of r u]
    have d: "vape_discards s r u = (if recessive_hit u then [] else [r])"
      using keep(1,2) by (simp add: vape_discards_def)
    show ?thesis unfolding keep(3) d using m by simp
  qed
qed

lemma vape_process_records_mset:
  assumes "vape_runner.recessive_filter s" and "vape_lists_inv seen s"
    and "output_ready (vape_runner.variant_cache s) = []"
    and "distinct (map ident (seen @ map fst input))"
    and "vape_process_records s input = Inr s'"
    and "mset seen = mset (vape_held s) + mset (vape_runner.out s) + mset gone"
  shows "mset (seen @ map fst input) =
         mset (vape_held s') + mset (vape_runner.out s') + mset (gone @ vape_discarded s input)"
  using assms
proof (induction input arbitrary: s seen gone)
  case Nil
  then show ?case by simp
next
  case (Cons ru input)
  obtain r u where ru: "ru = (r, u)" by (cases ru)
  from Cons.prems(5) ru obtain s1 where
    s1: "vape_process_record s r u = Inr s1" and rest: "vape_process_records s1 input = Inr s'"
    by (auto split: sum.splits)
  from Cons.prems(4) ru have new: "ident r \<notin> ident ` set seen" by auto
  from vape_process_record_inv[OF Cons.prems(1) Cons.prems(2) Cons.prems(3) new s1]
  have i1: "vape_lists_inv (seen @ [r]) s1" "output_ready (vape_runner.variant_cache s1) = []"
    "vape_runner.recessive_filter s1"
    by simp_all
  from Cons.prems(4) ru have d: "distinct (map ident ((seen @ [r]) @ map fst input))" by simp
  note st = vape_process_record_mset[OF Cons.prems(1) Cons.prems(3) s1]
  have "mset (seen @ [r]) = mset (vape_held s) + mset (vape_runner.out s) + {#r#} + mset gone"
    using Cons.prems(6) by simp
  also have "\<dots> = mset (vape_held s1) + mset (vape_runner.out s1) + mset (vape_discards s r u) +
      mset gone"
    by (simp only: st)
  finally have g: "mset (seen @ [r]) =
      mset (vape_held s1) + mset (vape_runner.out s1) + mset (gone @ vape_discards s r u)"
    by (simp add: ac_simps)
  from Cons.IH[OF i1(3) i1(1) i1(2) d rest g]
  have "mset ((seen @ [r]) @ map fst input) =
      mset (vape_held s') + mset (vape_runner.out s') +
      mset ((gone @ vape_discards s r u) @ vape_discarded s1 input)" .
  moreover have "vape_discarded s (ru # input) = vape_discards s r u @ vape_discarded s1 input"
    using ru s1 by simp
  ultimately show ?case using ru by simp
qed

lemma get_family_filter_shape:
  "get_family_filter s = Inr s' \<Longrightarrow>
   s' = s \<or> (\<exists>ids. s' = s\<lparr>ped_file := Some ids, family_filter := True\<rparr>)"
  unfolding get_family_filter_def Let_def
  by (auto split: if_splits sum.splits)

lemma unstarted_family: "get_family_filter s = Inr s' \<Longrightarrow> unstarted a s \<Longrightarrow> unstarted a s'"
  by (drule get_family_filter_shape) (auto simp: unstarted_def)

lemma unstarted_control: "unstarted a s \<Longrightarrow> unstarted a (get_control_filter s)"
  by (auto simp: unstarted_def get_control_filter_def)

lemma header_loop_eq:
  "header_loop fs s = (if fs \<noteq> [] \<and> min_families (args s) > 1 then s\<lparr>use_cache := True\<rparr> else s)"
  by (induction fs arbitrary: s) auto

lemma unstarted_header: "unstarted a s \<Longrightarrow> unstarted a (header_loop fs s)"
  by (auto simp: unstarted_def header_loop_eq)

lemma unstarted_de_novo:
  assumes "get_de_novo_filter el s = Inr s'" "unstarted a s"
  shows "unstarted a s'"
proof -
  from assms(1) obtain s1 where s1: "get_family_filter s = Inr s1"
    by (auto simp: get_de_novo_filter_def split: sum.splits)
  have u1: "unstarted a ((get_control_filter s1)\<lparr>de_novo_filter := True\<rparr>)"
    using unstarted_control[OF unstarted_family[OF s1 assms(2)]] by (simp add: unstarted_def)
  from assms(1) s1 have
    "s' = header_loop (de_novo_header_fields el) ((get_control_filter s1)\<lparr>de_novo_filter := True\<rparr>) \<or>
     (\<exists>w. s' = (get_control_filter s1)\<lparr>de_novo_filter := True, warnings := w, de_novo_filter := False\<rparr>)"
    by (auto simp: get_de_novo_filter_def Let_def split: if_splits)
  then show ?thesis using u1 unstarted_header[OF u1] by (auto simp: unstarted_def)
qed

lemma unstarted_dominant:
  assumes "get_dominant_filter el s = Inr s'" "unstarted a s"
  shows "unstarted a s'"
proof -
  from assms(1) obtain s1 where s1: "get_family_filter s = Inr s1"
    by (auto simp: get_dominant_filter_def split: sum.splits)
  have u1: "unstarted a ((get_control_filter s1)\<lparr>dominant_filter := True\<rparr>)"
    using unstarted_control[OF unstarted_family[OF s1 assms(2)]] by (simp add: unstarted_def)
  from assms(1) s1 have
    "s' = header_loop (dominant_header_fields el) ((get_control_filter s1)\<lparr>dominant_filter := True\<rparr>) \<or>
     (\<exists>w. s' = (get_control_filter s1)\<lparr>dominant_filter := True, warnings := w, dominant_filter := False\<rparr>)"
    by (auto simp: get_dominant_filter_def Let_def split: if_splits)
  then show ?thesis using u1 unstarted_header[OF u1] by (auto simp: unstarted_def)
qed

lemma unstarted_recessive:
  assumes "get_recessive_filter el s = Inr s'" "unstarted a s"
  shows "unstarted a s'"
proof -
  from assms(1) obtain s1 where s1: "get_family_filter s = Inr s1"
    by (auto simp: get_recessive_filter_def split: sum.splits)
  have u1: "unstarted a s1" by (rule unstarted_family[OF s1 assms(2)])
  from assms(1) s1 have
    "s' = s1\<lparr>recessive_filter := True, use_cache := True\<rparr> \<or>
     (\<exists>w. s' = s1\<lparr>recessive_filter := True, warnings := w, recessive_filter := False\<rparr>)"
    by (auto simp: get_recessive_filter_def Let_def split: if_splits)
  then show ?thesis using u1 by (auto simp: unstarted_def)
qed

lemma unstarted_check: "check_got_inherit_filter s = Inr s' \<Longrightarrow> s' = s"
  by (auto simp: check_got_inherit_filter_def split: if_splits)

lemma VaseRunner_init_unstarted:
  assumes "VaseRunner_init a el = Inr s"
  shows "unstarted a s"
proof -
  let ?s0 = "\<lparr>args = a,
                ped_file = (if given (ped a) then Some (ped_iids el) else None),
                sample_filter = (\<not> given (burden_counts a) \<and> (cases a \<noteq> [] \<or> controls a \<noteq> [])),
                burden_counter = given (burden_counts a),
                family_filter = False, control_filter = False, de_novo_filter = False,
                dominant_filter = False, recessive_filter = False, use_cache = False,
                variant_cache = VariantCache_init, out = [], var_written = 0,
                var_filtered = 0, warnings = []\<rparr>"
  have u0: "unstarted a ?s0" by (simp add: unstarted_def)
  from assms obtain s1 s2 s3 where
    1: "(if de_novo a then get_de_novo_filter el ?s0 else Inr ?s0) = Inr s1" and
    2: "(if biallelic a \<or> singleton_recessive a \<noteq> [] then get_recessive_filter el s1 else Inr s1) = Inr s2" and
    3: "(if dominant a \<or> singleton_dominant a \<noteq> [] then get_dominant_filter el s2 else Inr s2) = Inr s3" and
    4: "check_got_inherit_filter s3 = Inr s"
    unfolding VaseRunner_init_def Let_def by (auto split: sum.splits)
  have u1: "unstarted a s1" using 1 u0 unstarted_de_novo by (auto split: if_splits)
  have u2: "unstarted a s2" using 2 u1 unstarted_recessive by (auto split: if_splits)
  have u3: "unstarted a s3" using 3 u2 unstarted_dominant by (auto split: if_splits)
  show ?thesis using unstarted_check[OF 4] u3 by simp
qed

section \<open>The cache during a run\<close>

lemma init_rec: "VaseRunner_init args_rec elig_rec = Inr runner_rec"
  by (simp add: VaseRunner_init_def given_def args_rec_def elig_rec_def runner_rec_def
      get_recessive_filter_def get_family_filter_def check_got_inherit_filter_def Let_def)

lemma var_id_a: "var_id (CachedVariant_init rec_a co) = ''1:1203-A/T,G''"
  by (simp add: CachedVariant_init_def rec_a_def str_nat.simps)

lemma run_rec:
  "process_records runner_rec stream =
     Inr (runner_rec\<lparr>variant_cache :=
            \<lparr>cache = [CachedVariant_init rec_d False], features = {''ENST9''}, output_ready = []\<rparr>,
          out := [rec_a], var_written := 1, var_filtered := 2\<rparr>)"
  by (simp add: stream_def process_record_def answers_def all_filtered_def runner_rec_def
      args_rec_def cache_record_def Let_def add_record_def VariantCache_init_def these_feats_def
      rec_a_def rec_b_def rec_c_def rec_d_def add_cache_to_output_ready_def output_cache_def
      resolves_recessive_def resolves_dominant_def resolves_de_novo_def keep_ids_def
      CachedVariant_init_def str_nat.simps)



lemma lists_disjoint:
  "distinct (map ident (map record' (xs @ ys) @ zs)) \<Longrightarrow> set xs \<inter> set ys = {}"
  by (auto simp: distinct_map inj_on_def)

lemma cache_inv_disjoint:
  "cache_inv seen s \<Longrightarrow>
   set (cache (variant_cache s)) \<inter> set (output_ready (variant_cache s)) = {}"
proof -
  assume "cache_inv seen s"
  then have "distinct (map ident (map record' (cache (variant_cache s) @
      output_ready (variant_cache s)) @ out s))"
    by (simp add: cache_inv_def held_def)
  then show ?thesis by (rule lists_disjoint)
qed

lemma vape_lists_inv_disjoint:
  "vape_lists_inv seen s \<Longrightarrow>
   set (cache (vape_runner.variant_cache s)) \<inter> set (output_ready (vape_runner.variant_cache s)) = {}"
proof -
  assume "vape_lists_inv seen s"
  then have "distinct (map ident (map record' (cache (vape_runner.variant_cache s) @
      output_ready (vape_runner.variant_cache s)) @ vape_runner.out s))"
    by (simp add: vape_lists_inv_def vape_held_def)
  then show ?thesis by (rule lists_disjoint)
qed

lemma unstarted_cache_inv: "unstarted a s \<Longrightarrow> cache_inv [] s \<and> output_ready (variant_cache s) = []"
  by (simp add: unstarted_def cache_inv_def held_def VariantCache_init_def)

text \<open>
  Claim C2, as the code has it. At every point of a run of vase that uses the cache, and of
  a run of vape with a recessive filter up to the end of the stream, the cache and the
  list of variants ready for output share no variant, and the two lists hold exactly the
  records that went through \<^verbatim>\<open>process_record\<close> and were neither written nor given up.
  For vase, \<open>cache_inv\<close> says that the records held in the two lists and the records
  written are distinct objects among the records processed, and that the number of records
  processed is the number held plus the number written plus the number counted as
  filtered. For vape, which keeps no counters, \<open>vape_cache_inv\<close> says the same with the
  records given up listed by \<open>vape_discarded\<close>: the records processed are, each once,
  the records held, the records written and the records given up, and the list of ready
  variants is empty between two calls. The points are the states between two calls of
  \<^verbatim>\<open>process_record\<close>, the state after the cache was changed for a next record and
  before the flush, and for vase the state after \<^verbatim>\<open>finish_up\<close>, where nothing is
  held. \<^verbatim>\<open>finish_up\<close> of vape writes the cached variants that pass and leaves all of
  them in the cache.
\<close>

theorem cache_lists_invariant:
  "(VaseRunner_init a el = Inr s0 \<and> use_cache s0 \<and> distinct (map ident (map fst input)) \<and>
    process_records s0 input = Inr s \<longrightarrow>
      set (cache (variant_cache s)) \<inter> set (output_ready (variant_cache s)) = {} \<and>
      cache_inv (map fst input) s \<and>
      (ident r \<notin> ident ` set (map fst input) \<longrightarrow>
         set (cache (variant_cache (cache_record s r h_dn h_dom h_rec))) \<inter>
         set (output_ready (variant_cache (cache_record s r h_dn h_dom h_rec))) = {} \<and>
         cache_inv (map fst input @ [r]) (cache_record s r h_dn h_dom h_rec)) \<and>
      (finish_up s u = Inr s' \<longrightarrow> cache_inv (map fst input) s' \<and> held s' = [])) \<and>
   (vape_runner.recessive_filter v0 \<and> vape_runner.variant_cache v0 = VariantCache_init \<and>
    vape_runner.out v0 = [] \<and> distinct (map ident (map fst input)) \<and>
    vape_process_records v0 input = Inr v \<longrightarrow>
      set (cache (vape_runner.variant_cache v)) \<inter>
      set (output_ready (vape_runner.variant_cache v)) = {} \<and>
      output_ready (vape_runner.variant_cache v) = [] \<and>
      vape_cache_inv (map fst input) (vape_discarded v0 input) v \<and>
      (ident r \<notin> ident ` set (map fst input) \<longrightarrow>
         set (cache (vape_runner.variant_cache (vape_cache_record v r u))) \<inter>
         set (output_ready (vape_runner.variant_cache (vape_cache_record v r u))) = {} \<and>
         vape_cache_inv (map fst input @ [r])
           (vape_discarded v0 input @ (if recessive_hit u then [] else [r]))
           (vape_cache_record v r u)) \<and>
      vape_runner.variant_cache (vape_finish_up v u) = vape_runner.variant_cache v \<and>
      vape_runner.out (vape_finish_up v u) =
        vape_runner.out v @
        map record' (filter (passes (set (process_potential_recessives u False)))
                       (cache (vape_runner.variant_cache v))))"
proof (intro conjI impI)
  assume a: "VaseRunner_init a el = Inr s0 \<and> use_cache s0 \<and>
    distinct (map ident (map fst input)) \<and> process_records s0 input = Inr s"
  from a VaseRunner_init_unstarted have "unstarted a s0" by blast
  then have i0: "cache_inv [] s0" "output_ready (variant_cache s0) = []"
    using unstarted_cache_inv by blast+
  from a have d: "distinct (map ident ([] @ map fst input))" by simp
  from a have uc: "use_cache s0" and pr: "process_records s0 input = Inr s" by simp_all
  from process_records_inv[OF uc i0(1) i0(2) d pr]
  have inv: "cache_inv (map fst input) s" and us: "use_cache s" by simp_all
  show "cache_inv (map fst input) s" by (rule inv)
  show "set (cache (variant_cache s)) \<inter> set (output_ready (variant_cache s)) = {}"
    by (rule cache_inv_disjoint[OF inv])
  {
    assume new: "ident r \<notin> ident ` set (map fst input)"
    from cache_record_inv[OF inv new, of h_dn h_dom h_rec]
    show c: "cache_inv (map fst input @ [r]) (cache_record s r h_dn h_dom h_rec)" by simp
    show "set (cache (variant_cache (cache_record s r h_dn h_dom h_rec))) \<inter>
         set (output_ready (variant_cache (cache_record s r h_dn h_dom h_rec))) = {}"
      by (rule cache_inv_disjoint[OF c])
  }
  {
    assume f: "finish_up s u = Inr s'"
    with us have oc: "output_cache s u True = Inr s'" by (simp add: finish_up_def)
    from flush_inv[OF inv oc]
    show "cache_inv (map fst input) s'" by simp
    from flush_inv[OF inv oc] show "held s' = []" by (simp add: held_def)
  }
next
  assume a: "vape_runner.recessive_filter v0 \<and> vape_runner.variant_cache v0 = VariantCache_init \<and>
    vape_runner.out v0 = [] \<and> distinct (map ident (map fst input)) \<and>
    vape_process_records v0 input = Inr v"
  then have i0: "vape_lists_inv [] v0" "output_ready (vape_runner.variant_cache v0) = []"
    and g0: "mset [] = mset (vape_held v0) + mset (vape_runner.out v0) + mset []"
    by (simp_all add: vape_lists_inv_def vape_held_def VariantCache_init_def)
  from a have d: "distinct (map ident ([] @ map fst input))" by simp
  from a have rf: "vape_runner.recessive_filter v0"
    and pr: "vape_process_records v0 input = Inr v" by simp_all
  from vape_process_records_inv[OF rf i0(1) i0(2) d pr]
  have inv: "vape_lists_inv (map fst input) v"
    and rdy: "output_ready (vape_runner.variant_cache v) = []"
    and rfv: "vape_runner.recessive_filter v" by simp_all
  from vape_process_records_mset[OF rf i0(1) i0(2) d pr g0]
  have ms: "mset (map fst input) =
      mset (vape_held v) + mset (vape_runner.out v) + mset (vape_discarded v0 input)"
    by simp
  show "output_ready (vape_runner.variant_cache v) = []" by (rule rdy)
  show "vape_cache_inv (map fst input) (vape_discarded v0 input) v"
    unfolding vape_cache_inv_def using inv ms by simp
  show "set (cache (vape_runner.variant_cache v)) \<inter>
      set (output_ready (vape_runner.variant_cache v)) = {}"
    by (rule vape_lists_inv_disjoint[OF inv])
  {
    assume new: "ident r \<notin> ident ` set (map fst input)"
    from vape_cache_record_inv[OF inv rdy new, of u]
    have c: "vape_lists_inv (map fst input @ [r]) (vape_cache_record v r u)" by simp
    note m = vape_cache_record_mset[OF rdy, of r u]
    have "mset (map fst input @ [r]) =
        mset (vape_held (vape_cache_record v r u)) +
        mset (vape_runner.out (vape_cache_record v r u)) +
        mset (vape_discarded v0 input @ (if recessive_hit u then [] else [r]))"
      using m ms by simp
    with c show "vape_cache_inv (map fst input @ [r])
           (vape_discarded v0 input @ (if recessive_hit u then [] else [r]))
           (vape_cache_record v r u)"
      unfolding vape_cache_inv_def by simp
    show "set (cache (vape_runner.variant_cache (vape_cache_record v r u))) \<inter>
         set (output_ready (vape_runner.variant_cache (vape_cache_record v r u))) = {}"
      by (rule vape_lists_inv_disjoint[OF c])
  }
  show "vape_runner.variant_cache (vape_finish_up v u) = vape_runner.variant_cache v"
    using rfv rdy by (simp add: vape_finish_up_def vape_write_ready_eq Let_def)
  show "vape_runner.out (vape_finish_up v u) =
        vape_runner.out v @
        map record' (filter (passes (set (process_potential_recessives u False)))
                       (cache (vape_runner.variant_cache v)))"
    using rfv rdy by (simp add: vape_finish_up_def vape_write_ready_eq Let_def)
qed

lemma vape_run_rec:
  "vape_process_records vape_runner_rec stream =
     Inr (vape_runner_rec\<lparr>vape_runner.variant_cache :=
            \<lparr>cache = [vape_CachedVariant_init rec_d [False] None False],
             features = {''ENST9''}, output_ready = []\<rparr>,
          vape_runner.out := [rec_a]\<rparr>)"
  by (simp add: stream_def vape_process_record_def answers_def all_filtered_def
      vape_runner_rec_def vape_cache_record_def vape_output_ready_def Let_def
      vape_add_record_def VariantCache_init_def these_feats_def
      rec_a_def rec_b_def rec_c_def rec_d_def vape_CachedVariant_init_def str_nat.simps)

lemma vape_gone_rec: "vape_discarded vape_runner_rec stream = [rec_b, rec_c]"
  by (simp add: stream_def vape_process_record_def answers_def all_filtered_def
      vape_runner_rec_def vape_cache_record_def vape_output_ready_def Let_def
      vape_add_record_def VariantCache_init_def these_feats_def vape_discards_def
      vape_before_cache_def passes_def
      rec_a_def rec_b_def rec_c_def rec_d_def vape_CachedVariant_init_def str_nat.simps)

lemma finish_rec:
  "finish_up (runner_rec\<lparr>variant_cache :=
            \<lparr>cache = [CachedVariant_init rec_d False], features = {''ENST9''}, output_ready = []\<rparr>,
          out := [rec_a], var_written := 1, var_filtered := 2\<rparr>) (answers False [''2:5-G/C'']) =
   Inr (runner_rec\<lparr>variant_cache :=
            \<lparr>cache = [], features = {''ENST9''}, output_ready = []\<rparr>,
          out := [rec_a, rec_d], var_written := 2, var_filtered := 2\<rparr>)"
  by (simp add: finish_up_def answers_def runner_rec_def args_rec_def Let_def
      rec_d_def add_cache_to_output_ready_def output_cache_def
      resolves_recessive_def resolves_dominant_def resolves_de_novo_def keep_ids_def
      CachedVariant_init_def str_nat.simps)

text \<open>The four records of \<open>stream\<close> through vase with a recessive filter and through
  vape, a fifth record on its way into the cache, and the end of the stream.\<close>

theorem cache_lists_invariant_witness:
  "VaseRunner_init args_rec elig_rec = Inr runner_rec \<and> use_cache runner_rec \<and>
   distinct (map ident (map fst stream)) \<and>
   process_records runner_rec stream =
     Inr (runner_rec\<lparr>variant_cache :=
            \<lparr>cache = [CachedVariant_init rec_d False], features = {''ENST9''}, output_ready = []\<rparr>,
          out := [rec_a], var_written := 1, var_filtered := 2\<rparr>) \<and>
   cache_inv [rec_a, rec_b, rec_c, rec_d]
     (runner_rec\<lparr>variant_cache :=
            \<lparr>cache = [CachedVariant_init rec_d False], features = {''ENST9''}, output_ready = []\<rparr>,
          out := [rec_a], var_written := 1, var_filtered := 2\<rparr>) \<and>
   cache_inv [rec_a, rec_b, rec_c, rec_d, rec_e]
     (cache_record (runner_rec\<lparr>variant_cache :=
            \<lparr>cache = [CachedVariant_init rec_d False], features = {''ENST9''}, output_ready = []\<rparr>,
          out := [rec_a], var_written := 1, var_filtered := 2\<rparr>) rec_e False False True) \<and>
   cache_inv [rec_a, rec_b, rec_c, rec_d]
     (runner_rec\<lparr>variant_cache :=
            \<lparr>cache = [], features = {''ENST9''}, output_ready = []\<rparr>,
          out := [rec_a, rec_d], var_written := 2, var_filtered := 2\<rparr>) \<and>
   vape_runner.recessive_filter vape_runner_rec \<and>
   vape_process_records vape_runner_rec stream =
     Inr (vape_runner_rec\<lparr>vape_runner.variant_cache :=
            \<lparr>cache = [vape_CachedVariant_init rec_d [False] None False],
             features = {''ENST9''}, output_ready = []\<rparr>,
          vape_runner.out := [rec_a]\<rparr>) \<and>
   vape_discarded vape_runner_rec stream = [rec_b, rec_c] \<and>
   vape_cache_inv [rec_a, rec_b, rec_c, rec_d] [rec_b, rec_c]
     (vape_runner_rec\<lparr>vape_runner.variant_cache :=
            \<lparr>cache = [vape_CachedVariant_init rec_d [False] None False],
             features = {''ENST9''}, output_ready = []\<rparr>,
          vape_runner.out := [rec_a]\<rparr>) \<and>
   vape_cache_inv [rec_a, rec_b, rec_c, rec_d, rec_e] [rec_b, rec_c]
     (vape_cache_record (vape_runner_rec\<lparr>vape_runner.variant_cache :=
            \<lparr>cache = [vape_CachedVariant_init rec_d [False] None False],
             features = {''ENST9''}, output_ready = []\<rparr>,
          vape_runner.out := [rec_a]\<rparr>) rec_e (answers True []))"
proof -
  have d: "distinct (map ident (map fst stream))"
    by (simp add: stream_def rec_a_def rec_b_def rec_c_def rec_d_def)
  have m: "map fst stream = [rec_a, rec_b, rec_c, rec_d]" by (simp add: stream_def)
  have e: "ident rec_e \<notin> ident ` set (map fst stream)"
    by (simp add: stream_def rec_a_def rec_b_def rec_c_def rec_d_def rec_e_def)
  have uc: "use_cache runner_rec" by (simp add: runner_rec_def)
  have v0: "vape_runner.recessive_filter vape_runner_rec \<and>
    vape_runner.variant_cache vape_runner_rec = VariantCache_init \<and>
    vape_runner.out vape_runner_rec = []"
    by (simp add: vape_runner_rec_def)
  have h: "recessive_hit (answers True [])" by (simp add: answers_def)
  let ?S = "runner_rec\<lparr>variant_cache :=
            \<lparr>cache = [CachedVariant_init rec_d False], features = {''ENST9''}, output_ready = []\<rparr>,
          out := [rec_a], var_written := 1, var_filtered := 2\<rparr>"
  let ?S' = "runner_rec\<lparr>variant_cache :=
            \<lparr>cache = [], features = {''ENST9''}, output_ready = []\<rparr>,
          out := [rec_a, rec_d], var_written := 2, var_filtered := 2\<rparr>"
  let ?V = "vape_runner_rec\<lparr>vape_runner.variant_cache :=
            \<lparr>cache = [vape_CachedVariant_init rec_d [False] None False],
             features = {''ENST9''}, output_ready = []\<rparr>,
          vape_runner.out := [rec_a]\<rparr>"
  show ?thesis
    using cache_lists_invariant [where a = args_rec and el = elig_rec and ?s0.0 = runner_rec and
        input = stream and s = ?S and r = rec_e and h_dn = False and h_dom = False and
        h_rec = True and u = "answers True []" and ?v0.0 = vape_runner_rec and v = ?V]
      cache_lists_invariant [where a = args_rec and el = elig_rec and ?s0.0 = runner_rec and
        input = stream and s = ?S and r = rec_e and h_dn = False and h_dom = False and
        h_rec = True and u = "answers False [''2:5-G/C'']" and s' = ?S' and
        ?v0.0 = vape_runner_rec and v = ?V]
      init_rec run_rec finish_rec vape_run_rec vape_gone_rec d e uc v0 h
    by (simp add: m)
qed

text \<open>
  At the end of the stream \<^verbatim>\<open>finish_up\<close> of vape writes the record \<open>rec_d\<close>, which
  is in the cache, and leaves it there: the cache holds a record that was emitted.
\<close>

theorem vape_finish_up_counterexample:
  "vape_process_records vape_runner_rec stream =
     Inr (vape_runner_rec\<lparr>vape_runner.variant_cache :=
            \<lparr>cache = [vape_CachedVariant_init rec_d [False] None False],
             features = {''ENST9''}, output_ready = []\<rparr>,
          vape_runner.out := [rec_a]\<rparr>) \<and>
   vape_finish_up (vape_runner_rec\<lparr>vape_runner.variant_cache :=
            \<lparr>cache = [vape_CachedVariant_init rec_d [False] None False],
             features = {''ENST9''}, output_ready = []\<rparr>,
          vape_runner.out := [rec_a]\<rparr>) (answers False [''2:5-G/C'']) =
     vape_runner_rec\<lparr>vape_runner.variant_cache :=
            \<lparr>cache = [vape_CachedVariant_init rec_d [False] None False],
             features = {''ENST9''}, output_ready = []\<rparr>,
          vape_runner.out := [rec_a, rec_d]\<rparr> \<and>
   record' (vape_CachedVariant_init rec_d [False] None False) = rec_d \<and>
   rec_d \<in> set [rec_a, rec_d]"
proof -
  have "vape_finish_up (vape_runner_rec\<lparr>vape_runner.variant_cache :=
            \<lparr>cache = [vape_CachedVariant_init rec_d [False] None False],
             features = {''ENST9''}, output_ready = []\<rparr>,
          vape_runner.out := [rec_a]\<rparr>) (answers False [''2:5-G/C'']) =
     vape_runner_rec\<lparr>vape_runner.variant_cache :=
            \<lparr>cache = [vape_CachedVariant_init rec_d [False] None False],
             features = {''ENST9''}, output_ready = []\<rparr>,
          vape_runner.out := [rec_a, rec_d]\<rparr>"
    by (simp add: vape_finish_up_def answers_def vape_runner_rec_def Let_def rec_d_def
        vape_CachedVariant_init_def str_nat.simps)
  with vape_run_rec show ?thesis by (simp add: vape_CachedVariant_init_def)
qed

lemma output_cache_flush:
  "output_cache s u final =
     (if burden_counter s then
        Inl (TypeError
          (if resolves_recessive s \<or> resolves_dominant s \<or> resolves_de_novo s
           then [CHR 0x27] @ ''type'' @ [CHR 0x27] @ '' object does not support item assignment''
           else ''argument of type '' @ [CHR 0x27] @ ''type'' @ [CHR 0x27] @ '' is not iterable''))
      else
        Inr (s\<lparr>variant_cache :=
                \<lparr>cache = (if final then [] else cache (variant_cache s)),
                 features = features (variant_cache s), output_ready = []\<rparr>,
              out := out s @ map record' (filter (passes (keep_ids s u final)) (flushed s final)),
              var_written := var_written s +
                 length (filter (passes (keep_ids s u final)) (flushed s final)),
              var_filtered := var_filtered s +
                 length (filter (\<lambda>v. \<not> passes (keep_ids s u final) v) (flushed s final))\<rparr>))"
proof (cases "burden_counter s")
  case True
  then show ?thesis by (simp add: output_cache_def Let_def)
next
  case False
  then show ?thesis using output_cache_ok[OF False, of u final] by simp
qed

lemma vape_finish_up_eq:
  "vape_finish_up s u =
     (if vape_runner.recessive_filter s then
        s\<lparr>vape_runner.out := vape_runner.out s @
             map record' (filter (passes (set (process_potential_recessives u False)))
                            (output_ready (vape_runner.variant_cache s) @
                             cache (vape_runner.variant_cache s))),
          vape_runner.variant_cache := (vape_runner.variant_cache s)\<lparr>output_ready := []\<rparr>\<rparr>
      else s)"
  by (simp add: vape_finish_up_def vape_write_ready_eq Let_def)

lemma finish_up_drains:
  assumes "use_cache s" and "\<not> burden_counter s"
  shows "finish_up s u =
     Inr (s\<lparr>variant_cache :=
             \<lparr>cache = [], features = features (variant_cache s), output_ready = []\<rparr>,
           out := out s @ map record' (filter (passes (keep_ids s u True))
                    (output_ready (variant_cache s) @ cache (variant_cache s))),
           var_written := var_written s + length (filter (passes (keep_ids s u True))
                    (output_ready (variant_cache s) @ cache (variant_cache s))),
           var_filtered := var_filtered s + length (filter (\<lambda>v. \<not> passes (keep_ids s u True) v)
                    (output_ready (variant_cache s) @ cache (variant_cache s)))\<rparr>)"
  using assms output_cache_ok[OF assms(2), of u True] by (simp add: finish_up_def flushed_def)

lemma init_burden: "VaseRunner_init args_burden elig_rec = Inr runner_burden"
  by (simp add: VaseRunner_init_def given_def args_burden_def args_rec_def elig_rec_def runner_burden_def
      runner_rec_def get_recessive_filter_def get_family_filter_def check_got_inherit_filter_def
      Let_def)

text \<open>
  Claim C3, the flush of vase with a burden counter. \<open>output_cache_flush\<close> above gives
  every flush of vase: without a burden counter the variants that pass are written, the
  others are counted as filtered, and the list of ready variants is emptied. With a burden
  counter the flush raises a \<^verbatim>\<open>TypeError\<close> before anything is written, as on this
  stream of two records, where the second record closes the window of the first.
\<close>

theorem output_cache_burden_counter:
  "VaseRunner_init args_burden elig_rec = Inr runner_burden \<and>
   process_records runner_burden
       [(rec_a, answers True []), (rec_c, answers True [''1:1203-A/T,G''])] =
     Inl (TypeError ([CHR 0x27] @ ''type'' @ [CHR 0x27] @
                     '' object does not support item assignment'')) \<and>
   process_records runner_rec
       [(rec_a, answers True []), (rec_c, answers True [''1:1203-A/T,G''])] =
     Inr (runner_rec\<lparr>variant_cache :=
            \<lparr>cache = [CachedVariant_init rec_c False], features = {''ENST7''},
             output_ready = []\<rparr>,
          out := [rec_a], var_written := 1\<rparr>)"
  using init_burden
  by (simp add: process_record_def answers_def all_filtered_def runner_burden_def
      args_burden_def runner_rec_def args_rec_def cache_record_def Let_def add_record_def
      VariantCache_init_def these_feats_def rec_a_def rec_c_def add_cache_to_output_ready_def
      output_cache_def resolves_recessive_def resolves_dominant_def resolves_de_novo_def
      keep_ids_def CachedVariant_init_def str_nat.simps)

theorem output_cache_burden_counter_witness:
  "process_records runner_burden
       [(rec_a, answers True []), (rec_c, answers True [''1:1203-A/T,G''])] =
     Inl (TypeError ([CHR 0x27] @ ''type'' @ [CHR 0x27] @
                     '' object does not support item assignment''))"
  using output_cache_burden_counter by simp

text \<open>
  Claim C4, the end of the stream with a burden counter. \<open>finish_up_drains\<close> above
  gives \<^verbatim>\<open>finish_up\<close> without a burden counter: the cached variants are flushed with
  the ready ones, the checkers are asked with \<^verbatim>\<open>final\<close> set, and both lists end
  empty. With a burden counter \<^verbatim>\<open>finish_up\<close> raises the \<^verbatim>\<open>TypeError\<close> of the flush,
  and the cached record is never written.
\<close>

theorem finish_up_burden_counter:
  "run runner_burden [(rec_a, answers True [])] (answers False [''1:1203-A/T,G'']) =
     Inl (TypeError ([CHR 0x27] @ ''type'' @ [CHR 0x27] @
                     '' object does not support item assignment'')) \<and>
   run runner_rec [(rec_a, answers True [])] (answers False [''1:1203-A/T,G'']) =
     Inr (runner_rec\<lparr>variant_cache :=
            \<lparr>cache = [], features = {''ENST1'', ''ENST2''}, output_ready = []\<rparr>,
          out := [rec_a], var_written := 1\<rparr>)"
  by (simp add: run_def finish_up_def process_record_def answers_def all_filtered_def
      runner_burden_def args_burden_def runner_rec_def args_rec_def cache_record_def Let_def
      add_record_def VariantCache_init_def these_feats_def rec_a_def
      add_cache_to_output_ready_def output_cache_def resolves_recessive_def
      resolves_dominant_def resolves_de_novo_def keep_ids_def CachedVariant_init_def
      str_nat.simps)

theorem finish_up_burden_counter_witness:
  "run runner_burden [(rec_a, answers True [])] (answers False [''1:1203-A/T,G'']) =
     Inl (TypeError ([CHR 0x27] @ ''type'' @ [CHR 0x27] @
                     '' object does not support item assignment''))"
  using finish_up_burden_counter by simp

section \<open>Individuals\<close>

lemma py_int_literals:
  "py_int (PyStr ''1'') = Inr 1" "py_int (PyStr ''2'') = Inr 2" "py_int (PyStr ''0'') = Inr 0"
  "py_int (PyStr ''-9'') = Inr (- 9)" "py_int (PyInt n) = Inr n"
  "py_int (PyStr ''01'') = Inr 1"
  "py_int (PyStr ''U'') = Inl (ValueError ''U'')"
  "py_int (PyStr ''NA'') = Inl (ValueError ''NA'')"
  "py_int (PyStr ''x'') = Inl (ValueError ''x'')"
  by (simp_all add: py_int_def py_int_str_def int_space_def isdigit_def)

lemma py_int_cases: "(\<exists>n. py_int v = Inr n) \<or> (\<exists>m. py_int v = Inl (ValueError m))"
  by (auto simp: py_int_def split: pyval.splits option.splits)

lemma Individual_init_iid:
  "Individual_init f i fa mo sx ph s h c = Inr n \<Longrightarrow> iid n = i \<and> individual.fid n = f"
  by (auto simp: Individual_init_def split: sum.splits py_exception.splits)

lemma Individual_init_no_ids:
  "Individual_init f i fa mo sx ph s h c = Inr n \<Longrightarrow> no_ids (siblings n) \<and> no_ids (half_siblings n)"
  by (auto simp: Individual_init_def no_ids_def split: sum.splits py_exception.splits if_splits)

lemma kids_made:
  "Individual_init ''F1'' ''kid1'' ''dad'' ''mum'' (PyStr ''1'') (PyStr ''2'') [] [] [] = Inr kid1"
  "Individual_init ''F1'' ''kid2'' ''dad'' ''mum'' (PyStr ''2'') (PyStr ''1'') [] [] [] = Inr kid2"
  "Individual_init ''other'' ''kid3'' ''dad'' ''0'' (PyStr ''U'') (PyStr ''-9'') [] [] [] = Inr kid3"
  by (simp_all add: Individual_init_def py_int_literals kid1_def kid2_def kid3_def)

text \<open>
  Claim C9, as the code has it. The constructor reads both codes with \<^verbatim>\<open>int()\<close>. When
  the phenotype code is not an integer literal the constructor raises the
  \<^verbatim>\<open>ValueError\<close> of \<^verbatim>\<open>int()\<close> and no individual is made. Otherwise the individual
  is male when the integer value of the sex code is 1, female when it is 2, and of unknown
  gender for every other value and for a sex code that is not an integer literal; it is
  unaffected when the integer value of the phenotype code is 1, affected when it is 2, and
  of unknown phenotype for every other integer. The codes \<^verbatim>\<open>1\<close>, \<^verbatim>\<open>2\<close>,
  \<^verbatim>\<open>0\<close> and \<^verbatim>\<open>-9\<close> of a PED file have the values 1, 2, 0 and -9.
\<close>

theorem Individual_codes:
  "(case py_int ph of
      Inl e \<Rightarrow> Individual_init f i fa mo sx ph sibs hsibs chn = Inl e
    | Inr p \<Rightarrow>
        (\<exists>ind. Individual_init f i fa mo sx ph sibs hsibs chn = Inr ind \<and>
           is_male ind = (py_int sx = Inr 1) \<and>
           is_female ind = (py_int sx = Inr 2) \<and>
           is_unknown_gender ind = (py_int sx \<noteq> Inr 1 \<and> py_int sx \<noteq> Inr 2) \<and>
           is_unaffected ind = (p = 1) \<and>
           is_affected ind = (p = 2) \<and>
           is_unknown_phenotype ind = (p \<noteq> 1 \<and> p \<noteq> 2))) \<and>
   py_int (PyStr ''1'') = Inr 1 \<and> py_int (PyStr ''2'') = Inr 2 \<and>
   py_int (PyStr ''0'') = Inr 0 \<and> py_int (PyStr ''-9'') = Inr (- 9) \<and>
   py_int (PyInt n) = Inr n"
  using py_int_cases[of sx]
  by (auto simp: Individual_init_def is_male_def is_female_def is_unknown_gender_def
      is_unaffected_def is_affected_def is_unknown_phenotype_def py_int_literals
      split: sum.splits)

text \<open>The constructor on the columns of two lines: sex \<^verbatim>\<open>U\<close> with phenotype
  \<^verbatim>\<open>-9\<close>, and sex \<^verbatim>\<open>1\<close> with phenotype \<^verbatim>\<open>2\<close>.\<close>

theorem Individual_codes_witness:
  "Individual_init ''other'' ''kid3'' ''dad'' ''0'' (PyStr ''U'') (PyStr ''-9'') [] [] [] = Inr kid3 \<and>
   is_unknown_gender kid3 \<and> is_unknown_phenotype kid3 \<and> \<not> is_male kid3 \<and> \<not> is_affected kid3 \<and>
   Individual_init ''F1'' ''kid1'' ''dad'' ''mum'' (PyStr ''1'') (PyStr ''2'') [] [] [] = Inr kid1 \<and>
   is_male kid1 \<and> is_affected kid1"
  using Individual_codes [where ph = "PyStr ''-9''" and f = "''other''" and i = "''kid3''" and
      fa = "''dad''" and mo = "''0''" and sx = "PyStr ''U''" and sibs = "[]" and hsibs = "[]" and
      chn = "[]"]
    Individual_codes [where ph = "PyStr ''2''" and f = "''F1''" and i = "''kid1''" and
      fa = "''dad''" and mo = "''mum''" and sx = "PyStr ''1''" and sibs = "[]" and hsibs = "[]" and
      chn = "[]"]
    kids_made
  by (simp add: py_int_literals)

text \<open>The sex code \<^verbatim>\<open>01\<close> is neither \<^verbatim>\<open>1\<close> nor \<^verbatim>\<open>2\<close> and gives a male
  individual; the phenotype code \<^verbatim>\<open>NA\<close> is neither 1 nor 2 and gives no individual of
  unknown phenotype, but a \<^verbatim>\<open>ValueError\<close>.\<close>

theorem Individual_code_counterexample:
  "Individual_init ''F1'' ''kid1'' ''dad'' ''mum'' (PyStr ''01'') (PyStr ''2'') [] [] [] = Inr kid1 \<and>
   is_male kid1 \<and> \<not> is_unknown_gender kid1 \<and> ''01'' \<noteq> ''1'' \<and> ''01'' \<noteq> ''2'' \<and>
   Individual_init ''F1'' ''kid1'' ''dad'' ''mum'' (PyStr ''1'') (PyStr ''NA'') [] [] [] =
     Inl (ValueError ''NA'')"
  by (simp add: Individual_init_def py_int_literals kid1_def is_male_def is_unknown_gender_def)


section \<open>The list arguments of the constructor\<close>

lemma init_lists:
  assumes "sibs < length h" "hsibs < length h" "chn < length h"
  shows "Individual_init_lists h sibs hsibs chn =
     (h @ [if h ! sibs \<noteq> [] then [Ref sibs] else [],
           if h ! hsibs \<noteq> [] then [Ref hsibs] else [],
           if h ! chn \<noteq> [] then [Ref chn] else []],
      \<lparr>siblings_at = length h, half_siblings_at = length h + 1, children_at = length h + 2\<rparr>)"
  using assms
  by (simp add: Individual_init_lists_def new_list_def append_at_def nth_append list_update_append)

lemma resolve_strs: "strings_of (map Str xs) = xs"
  by (induction xs) auto

text \<open>
  Claim C10. Let the three list arguments of the constructor be the lists of strings at the
  addresses \<open>sibs\<close>, \<open>hsibs\<close> and \<open>chn\<close> of the store. After the constructor, each
  of the three attributes is a list made by the constructor itself: its address is not an
  address of the store before the call (so it is neither an argument nor a default list of
  the function), the three addresses differ, and no list that existed before the call has
  changed. The attribute holds one element, the address of the argument (the argument
  list itself, not its elements), when the argument is not empty, and nothing when it is
  empty. The lists of the record \<open>individual\<close> are the values of these stored lists.
\<close>

theorem Individual_list_arguments:
  assumes "sibs < length h" "hsibs < length h" "chn < length h"
    and "h ! sibs = map Str xs" "h ! hsibs = map Str ys" "h ! chn = map Str zs"
    and "Individual_init_lists h sibs hsibs chn = (h', at)"
    and "Individual_init f i fa mo sx ph xs ys zs = Inr ind"
  shows "h' ! siblings_at at = (if xs = [] then [] else [Ref sibs]) \<and>
         h' ! half_siblings_at at = (if ys = [] then [] else [Ref hsibs]) \<and>
         h' ! children_at at = (if zs = [] then [] else [Ref chn]) \<and>
         length h \<le> siblings_at at \<and> length h \<le> half_siblings_at at \<and>
         length h \<le> children_at at \<and>
         distinct [siblings_at at, half_siblings_at at, children_at at] \<and>
         take (length h) h' = h \<and>
         siblings ind = (if xs = [] then [] else [Group xs]) \<and>
         half_siblings ind = (if ys = [] then [] else [Group ys]) \<and>
         children ind = (if zs = [] then [] else [Group zs]) \<and>
         siblings ind = map (resolve h') (h' ! siblings_at at) \<and>
         half_siblings ind = map (resolve h') (h' ! half_siblings_at at) \<and>
         children ind = map (resolve h') (h' ! children_at at)"
proof -
  from init_lists[OF assms(1-3)] assms(7)
  have h': "h' = h @ [if h ! sibs \<noteq> [] then [Ref sibs] else [],
           if h ! hsibs \<noteq> [] then [Ref hsibs] else [],
           if h ! chn \<noteq> [] then [Ref chn] else []]"
    and at: "at = \<lparr>siblings_at = length h, half_siblings_at = length h + 1, children_at = length h + 2\<rparr>"
    by simp_all
  from assms(8) have ind: "siblings ind = (if xs = [] then [] else [Group xs])"
    "half_siblings ind = (if ys = [] then [] else [Group ys])"
    "children ind = (if zs = [] then [] else [Group zs])"
    by (auto simp: Individual_init_def split: sum.splits py_exception.splits)
  show ?thesis
    unfolding ind using assms(1-6)
    by (simp add: h' at nth_append resolve_def resolve_strs)
qed

text \<open>An individual made with the sibling list at address 3 and two empty lists.\<close>

theorem Individual_list_arguments_witness:
  "Individual_init_lists [[], [], [], [Str ''kid2'']] 3 1 2 =
     ([[], [], [], [Str ''kid2''], [Ref 3], [], []],
      \<lparr>siblings_at = 4, half_siblings_at = 5, children_at = 6\<rparr>) \<and>
   Individual_init ''F1'' ''kid1'' ''dad'' ''mum'' (PyStr ''1'') (PyStr ''2'') [''kid2''] [] [] =
     Inr (kid1\<lparr>siblings := [Group [''kid2'']]\<rparr>) \<and>
   siblings (kid1\<lparr>siblings := [Group [''kid2'']]\<rparr>) =
     map (resolve [[], [], [], [Str ''kid2''], [Ref 3], [], []]) [Ref 3]"
proof -
  have a: "Individual_init_lists [[], [], [], [Str ''kid2'']] 3 1 2 =
     ([[], [], [], [Str ''kid2''], [Ref 3], [], []],
      \<lparr>siblings_at = 4, half_siblings_at = 5, children_at = 6\<rparr>)"
    by (simp add: Individual_init_lists_def new_list_def append_at_def Let_def)
  have b: "Individual_init ''F1'' ''kid1'' ''dad'' ''mum'' (PyStr ''1'') (PyStr ''2'') [''kid2''] [] [] =
     Inr (kid1\<lparr>siblings := [Group [''kid2'']]\<rparr>)"
    by (simp add: Individual_init_def py_int_literals kid1_def)
  from Individual_list_arguments [where h = "[[], [], [], [Str ''kid2'']]" and sibs = 3 and
      hsibs = 1 and chn = 2 and xs = "[''kid2'']" and ys = "[]" and zs = "[]",
      OF _ _ _ _ _ _ a b]
  have "siblings (kid1\<lparr>siblings := [Group [''kid2'']]\<rparr>) =
     map (resolve [[], [], [], [Str ''kid2''], [Ref 3], [], []]) [Ref 3]"
    by simp
  with a b show ?thesis by simp
qed


section \<open>Families\<close>

lemma relate_eq:
  "relate ms n =
     (map (\<lambda>(k, i). (k, link i n)) ms,
      n\<lparr>siblings := siblings n @ map (\<lambda>(k, i). Iid (iid i)) (filter (\<lambda>(k, i). same_parents i n) ms),
        half_siblings := half_siblings n @
          map (\<lambda>(k, i). Iid (iid i)) (filter (\<lambda>(k, i). \<not> same_parents i n \<and> one_parent i n) ms)\<rparr>)"
proof (induction ms arbitrary: n)
  case Nil
  then show ?case by simp
next
  case (Cons p ms)
  obtain k i where p: "p = (k, i)" by (cases p)
  have l1: "\<And>j xs. link j (n\<lparr>siblings := xs\<rparr>) = link j n"
    by (simp add: link_def same_parents_def one_parent_def)
  have l2: "\<And>j xs. link j (n\<lparr>half_siblings := xs\<rparr>) = link j n"
    by (simp add: link_def same_parents_def one_parent_def)
  have s1: "\<And>j xs. same_parents j (n\<lparr>siblings := xs\<rparr>) = same_parents j n"
    "\<And>j xs. same_parents j (n\<lparr>half_siblings := xs\<rparr>) = same_parents j n"
    "\<And>j xs. one_parent j (n\<lparr>siblings := xs\<rparr>) = one_parent j n"
    "\<And>j xs. one_parent j (n\<lparr>half_siblings := xs\<rparr>) = one_parent j n"
    by (simp_all add: same_parents_def one_parent_def)
  show ?case
  proof (cases "same_parents i n")
    case True
    then have hd: "link i n = i\<lparr>siblings := siblings i @ [Iid (iid n)]\<rparr>"
      by (simp add: link_def)
    from True show ?thesis
      unfolding p by (simp add: Cons.IH l1 s1 hd)
  next
    case False
    show ?thesis
    proof (cases "one_parent i n")
      case True
      with False have hd: "link i n = i\<lparr>half_siblings := half_siblings i @ [Iid (iid n)]\<rparr>"
        by (simp add: link_def)
      from True False show ?thesis
        unfolding p by (simp add: Cons.IH l2 s1 hd)
    next
      case f2: False
      with False have hd: "link i n = i" by (simp add: link_def)
      from f2 False show ?thesis
        unfolding p by (simp add: Cons.IH hd)
    qed
  qed
qed

lemma sibling_ids_link:
  "sibling_ids (link a n) = sibling_ids a \<union> (if same_parents a n then {iid n} else {})"
  "half_sibling_ids (link a n) =
     half_sibling_ids a \<union> (if \<not> same_parents a n \<and> one_parent a n then {iid n} else {})"
  "iid (link a n) = iid a" "individual.fid (link a n) = individual.fid a"
  by (auto simp: link_def sibling_ids_def half_sibling_ids_def)

lemma members_inv_step:
  assumes inv: "members_inv f ms" and new: "iid n \<notin> fst ` set ms" and fid: "individual.fid n' = f"
    and iid: "iid n' = iid n"
    and sib: "sibling_ids n' = {iid a | k a. (k, a) \<in> set ms \<and> same_parents a n}"
    and hsib: "half_sibling_ids n' =
        {iid a | k a. (k, a) \<in> set ms \<and> \<not> same_parents a n \<and> one_parent a n}"
  shows "members_inv f (map (\<lambda>(k, i). (k, link i n)) ms @ [(iid n, n')])"
proof -
  let ?ms' = "map (\<lambda>(k, i). (k, link i n)) ms"
  let ?all = "?ms' @ [(iid n, n')]"
  have keys: "map fst ?ms' = map fst ms" by (induction ms) auto
  have keyset: "fst ` set ?all = insert (iid n) (fst ` set ms)"
  proof -
    have "fst ` set ?all = set (map fst ?all)" by (simp only: set_map)
    also have "\<dots> = set (map fst ms @ [iid n])"
      using keys by (simp only: map_append list.map fst_conv)
    finally show ?thesis by auto
  qed
  from inv have dist: "distinct (map fst ms)"
    and key: "\<And>k a. (k, a) \<in> set ms \<Longrightarrow> iid a = k \<and> individual.fid a = f"
    and clo: "\<And>k a. (k, a) \<in> set ms \<Longrightarrow> sibling_ids a \<union> half_sibling_ids a \<subseteq> fst ` set ms"
    and sym: "\<And>ka a kb b. (ka, a) \<in> set ms \<Longrightarrow> (kb, b) \<in> set ms \<Longrightarrow>
         (kb \<in> sibling_ids a \<longleftrightarrow> ka \<in> sibling_ids b) \<and>
         (kb \<in> half_sibling_ids a \<longleftrightarrow> ka \<in> half_sibling_ids b)"
    unfolding members_inv_def by blast+
  have uniq: "\<And>k a b. (k, a) \<in> set ms \<Longrightarrow> (k, b) \<in> set ms \<Longrightarrow> a = b"
    using dist by (rule eq_key_imp_eq_value)
  have inkeys: "\<And>k a. (k, a) \<in> set ms \<Longrightarrow> k \<in> fst ` set ms"
    by (simp add: rev_image_eqI)
  have fresh: "\<And>k a. (k, a) \<in> set ms \<Longrightarrow>
      k \<noteq> iid n \<and> iid n \<notin> sibling_ids a \<and> iid n \<notin> half_sibling_ids a"
  proof -
    fix k a assume m: "(k, a) \<in> set ms"
    from inkeys[OF m] new have "k \<noteq> iid n" by blast
    moreover from clo[OF m] new have "iid n \<notin> sibling_ids a" "iid n \<notin> half_sibling_ids a"
      by blast+
    ultimately show "k \<noteq> iid n \<and> iid n \<notin> sibling_ids a \<and> iid n \<notin> half_sibling_ids a"
      by simp
  qed
  have d': "distinct (map fst ?all)"
  proof -
    have e: "map fst ?all = map fst ms @ [iid n]"
      using keys by (simp only: map_append list.map fst_conv)
    show ?thesis unfolding e using dist new by simp
  qed
  have in_sib: "\<And>k a. (k, a) \<in> set ms \<Longrightarrow> (k \<in> sibling_ids n' \<longleftrightarrow> same_parents a n)"
  proof -
    fix k a assume m: "(k, a) \<in> set ms"
    show "k \<in> sibling_ids n' \<longleftrightarrow> same_parents a n"
    proof
      assume "k \<in> sibling_ids n'"
      then obtain k2 b where b: "(k2, b) \<in> set ms" "same_parents b n" "k = iid b"
        unfolding sib by blast
      with key[OF b(1)] have "(k, b) \<in> set ms" by simp
      from uniq[OF this m] b show "same_parents a n" by simp
    next
      assume "same_parents a n"
      with m key[OF m] show "k \<in> sibling_ids n'" unfolding sib by blast
    qed
  qed
  have in_hsib: "\<And>k a. (k, a) \<in> set ms \<Longrightarrow>
      (k \<in> half_sibling_ids n' \<longleftrightarrow> \<not> same_parents a n \<and> one_parent a n)"
  proof -
    fix k a assume m: "(k, a) \<in> set ms"
    show "k \<in> half_sibling_ids n' \<longleftrightarrow> \<not> same_parents a n \<and> one_parent a n"
    proof
      assume "k \<in> half_sibling_ids n'"
      then obtain k2 b where b: "(k2, b) \<in> set ms" "\<not> same_parents b n \<and> one_parent b n" "k = iid b"
        unfolding hsib by blast
      with key[OF b(1)] have "(k, b) \<in> set ms" by simp
      from uniq[OF this m] b show "\<not> same_parents a n \<and> one_parent a n" by simp
    next
      assume "\<not> same_parents a n \<and> one_parent a n"
      with m key[OF m] show "k \<in> half_sibling_ids n'" unfolding hsib by blast
    qed
  qed
  have sub_n: "sibling_ids n' \<union> half_sibling_ids n' \<subseteq> fst ` set ms"
  proof
    fix x assume "x \<in> sibling_ids n' \<union> half_sibling_ids n'"
    then obtain k b where b: "(k, b) \<in> set ms" "x = iid b" unfolding sib hsib by blast
    with key[OF b(1)] inkeys[OF b(1)] show "x \<in> fst ` set ms" by simp
  qed
  have split: "\<And>k a. (k, a) \<in> set ?all \<Longrightarrow>
      (\<exists>b. (k, b) \<in> set ms \<and> a = link b n) \<or> (k = iid n \<and> a = n')"
    by auto
  have p1: "\<And>k a. (k, a) \<in> set ?all \<Longrightarrow> iid a = k \<and> individual.fid a = f \<and>
         sibling_ids a \<union> half_sibling_ids a \<subseteq> fst ` set ?all"
  proof -
    fix k a assume "(k, a) \<in> set ?all"
    from split[OF this] show "iid a = k \<and> individual.fid a = f \<and>
         sibling_ids a \<union> half_sibling_ids a \<subseteq> fst ` set ?all"
    proof
      assume "\<exists>b. (k, b) \<in> set ms \<and> a = link b n"
      then obtain b where b: "(k, b) \<in> set ms" "a = link b n" by blast
      from clo[OF b(1)] have "sibling_ids a \<union> half_sibling_ids a \<subseteq> insert (iid n) (fst ` set ms)"
        unfolding b(2) sibling_ids_link by (auto split: if_splits)
      with key[OF b(1)] b(2) show ?thesis unfolding keyset by (simp add: sibling_ids_link)
    next
      assume "k = iid n \<and> a = n'"
      with fid iid sub_n show ?thesis unfolding keyset by auto
    qed
  qed
  have p2: "\<And>ka a kb b. (ka, a) \<in> set ?all \<Longrightarrow> (kb, b) \<in> set ?all \<Longrightarrow>
         (kb \<in> sibling_ids a \<longleftrightarrow> ka \<in> sibling_ids b) \<and>
         (kb \<in> half_sibling_ids a \<longleftrightarrow> ka \<in> half_sibling_ids b)"
  proof -
    fix ka a kb b assume A: "(ka, a) \<in> set ?all" and B: "(kb, b) \<in> set ?all"
    from split[OF A] split[OF B]
    consider (oo) a0 b0 where "(ka, a0) \<in> set ms" "a = link a0 n" "(kb, b0) \<in> set ms" "b = link b0 n"
      | (on) a0 where "(ka, a0) \<in> set ms" "a = link a0 n" "kb = iid n" "b = n'"
      | (no) b0 where "ka = iid n" "a = n'" "(kb, b0) \<in> set ms" "b = link b0 n"
      | (nn) "ka = iid n" "a = n'" "kb = iid n" "b = n'"
      by blast
    then show "(kb \<in> sibling_ids a \<longleftrightarrow> ka \<in> sibling_ids b) \<and>
         (kb \<in> half_sibling_ids a \<longleftrightarrow> ka \<in> half_sibling_ids b)"
    proof cases
      case oo
      from sym[OF oo(1) oo(3)] fresh[OF oo(1)] fresh[OF oo(3)] show ?thesis
        unfolding oo(2) oo(4) sibling_ids_link by simp
    next
      case on
      from fresh[OF on(1)] in_sib[OF on(1)] in_hsib[OF on(1)] show ?thesis
        unfolding on(2) on(3) on(4) sibling_ids_link by simp
    next
      case no
      from fresh[OF no(3)] in_sib[OF no(3)] in_hsib[OF no(3)] show ?thesis
        unfolding no(1) no(2) no(4) sibling_ids_link by simp
    next
      case nn
      then show ?thesis by simp
    qed
  qed
  show ?thesis unfolding members_inv_def
  proof (intro conjI)
    show "distinct (map fst ?all)" by (rule d')
    show "\<forall>(k, a)\<in>set ?all. iid a = k \<and> individual.fid a = f \<and>
        sibling_ids a \<union> half_sibling_ids a \<subseteq> fst ` set ?all"
      using p1 by blast
    show "\<forall>(ka, a)\<in>set ?all. \<forall>(kb, b)\<in>set ?all.
        (kb \<in> sibling_ids a) = (ka \<in> sibling_ids b) \<and>
        (kb \<in> half_sibling_ids a) = (ka \<in> half_sibling_ids b)"
      using p2 by blast
  qed
qed

lemma erase_keys: "map fst (erase ms) = map fst ms"
  by (induction ms) (auto simp: erase_def)

lemma erase_keyset: "fst ` set (erase ms) = fst ` set ms"
proof -
  have "fst ` set (erase ms) = set (map fst (erase ms))" by (simp only: set_map)
  also have "\<dots> = set (map fst ms)" by (simp only: erase_keys)
  finally show ?thesis by (simp only: set_map)
qed

lemma erase_mem: "(k, a) \<in> set (erase ms) \<longleftrightarrow> (\<exists>b. (k, b) \<in> set ms \<and> a = b\<lparr>children := []\<rparr>)"
  by (auto simp: erase_def)

lemma erased_fields:
  "iid (b\<lparr>children := c\<rparr>) = iid b" "individual.fid (b\<lparr>children := c\<rparr>) = individual.fid b"
  "sibling_ids (b\<lparr>children := c\<rparr>) = sibling_ids b"
  "half_sibling_ids (b\<lparr>children := c\<rparr>) = half_sibling_ids b"
  by (simp_all add: sibling_ids_def half_sibling_ids_def)

lemma members_inv_erase: "members_inv f (erase ms) = members_inv f ms"
proof
  assume e: "members_inv f (erase ms)"
  have m: "\<And>k b. (k, b) \<in> set ms \<Longrightarrow> (k, b\<lparr>children := []\<rparr>) \<in> set (erase ms)"
    unfolding erase_mem by blast
  from e have d: "distinct (map fst ms)" unfolding members_inv_def erase_keys by blast
  from e have p1: "\<And>k a. (k, a) \<in> set (erase ms) \<Longrightarrow> iid a = k \<and> individual.fid a = f \<and>
         sibling_ids a \<union> half_sibling_ids a \<subseteq> fst ` set ms"
    unfolding members_inv_def erase_keyset by blast
  from e have p2: "\<And>ka a kb b. (ka, a) \<in> set (erase ms) \<Longrightarrow> (kb, b) \<in> set (erase ms) \<Longrightarrow>
         (kb \<in> sibling_ids a \<longleftrightarrow> ka \<in> sibling_ids b) \<and>
         (kb \<in> half_sibling_ids a \<longleftrightarrow> ka \<in> half_sibling_ids b)"
    unfolding members_inv_def by blast
  show "members_inv f ms"
    unfolding members_inv_def
  proof (intro conjI)
    show "distinct (map fst ms)" by (rule d)
    show "\<forall>(k, a)\<in>set ms. iid a = k \<and> individual.fid a = f \<and>
        sibling_ids a \<union> half_sibling_ids a \<subseteq> fst ` set ms"
    proof (clarify, goal_cases)
      case (1 k a)
      from p1[OF m[OF 1]] show ?case by (simp add: erased_fields)
    qed
    show "\<forall>(ka, a)\<in>set ms. \<forall>(kb, b)\<in>set ms.
        (kb \<in> sibling_ids a) = (ka \<in> sibling_ids b) \<and>
        (kb \<in> half_sibling_ids a) = (ka \<in> half_sibling_ids b)"
    proof (clarify, goal_cases)
      case (1 ka a kb b)
      from p2[OF m[OF 1(1)] m[OF 1(2)]] show ?case by (simp add: erased_fields)
    qed
  qed
next
  assume e: "members_inv f ms"
  from e have d: "distinct (map fst ms)" unfolding members_inv_def by blast
  from e have p1: "\<And>k a. (k, a) \<in> set ms \<Longrightarrow> iid a = k \<and> individual.fid a = f \<and>
         sibling_ids a \<union> half_sibling_ids a \<subseteq> fst ` set ms"
    unfolding members_inv_def by blast
  from e have p2: "\<And>ka a kb b. (ka, a) \<in> set ms \<Longrightarrow> (kb, b) \<in> set ms \<Longrightarrow>
         (kb \<in> sibling_ids a \<longleftrightarrow> ka \<in> sibling_ids b) \<and>
         (kb \<in> half_sibling_ids a \<longleftrightarrow> ka \<in> half_sibling_ids b)"
    unfolding members_inv_def by blast
  show "members_inv f (erase ms)"
    unfolding members_inv_def erase_keys erase_keyset
  proof (intro conjI)
    show "distinct (map fst ms)" by (rule d)
    show "\<forall>(k, a)\<in>set (erase ms). iid a = k \<and> individual.fid a = f \<and>
        sibling_ids a \<union> half_sibling_ids a \<subseteq> fst ` set ms"
    proof (clarify, goal_cases)
      case (1 k a)
      then obtain b where b: "(k, b) \<in> set ms" "a = b\<lparr>children := []\<rparr>"
        unfolding erase_mem by blast
      from p1[OF b(1)] show ?case unfolding b(2) by (simp add: erased_fields)
    qed
    show "\<forall>(ka, a)\<in>set (erase ms). \<forall>(kb, b)\<in>set (erase ms).
        (kb \<in> sibling_ids a) = (ka \<in> sibling_ids b) \<and>
        (kb \<in> half_sibling_ids a) = (ka \<in> half_sibling_ids b)"
    proof (clarify, goal_cases)
      case (1 ka a kb b)
      from 1(1) obtain a0 where a0: "(ka, a0) \<in> set ms" "a = a0\<lparr>children := []\<rparr>"
        unfolding erase_mem by blast
      from 1(2) obtain b0 where b0: "(kb, b0) \<in> set ms" "b = b0\<lparr>children := []\<rparr>"
        unfolding erase_mem by blast
      from p2[OF a0(1) b0(1)] show ?case unfolding a0(2) b0(2) by (simp add: erased_fields)
    qed
  qed
qed

lemma update_new: "k \<notin> fst ` set al \<Longrightarrow> AList.update k v al = al @ [(k, v)]"
  by (induction al) auto

lemma erase_update:
  "map_of al k = Some v0 \<Longrightarrow> erase (AList.update k (v0\<lparr>children := c\<rparr>) al) = erase al"
  by (induction al) (auto simp: erase_def)

lemma add_parent_erase:
  "erase (family.individuals (add_parent c p F)) = erase (family.individuals F) \<and>
   family.fid (add_parent c p F) = family.fid F"
  by (auto simp: add_parent_def Let_def erase_update split: option.splits)

lemma link_fid: "link i (n\<lparr>individual.fid := x\<rparr>) = link i n"
  by (simp add: link_def same_parents_def one_parent_def)

lemma erase_append: "erase (xs @ ys) = erase xs @ erase ys"
  by (simp add: erase_def)

lemma add_individual_erase:
  assumes "add_individual F n = Inr F'"
  shows "iid n \<notin> fst ` set (family.individuals F) \<and> family.fid F' = family.fid F \<and>
    (\<exists>n'. individual.fid n' = family.fid F \<and> iid n' = iid n \<and>
       siblings n' = siblings n @ map (\<lambda>(k, i). Iid (iid i))
           (filter (\<lambda>(k, i). same_parents i n) (family.individuals F)) \<and>
       half_siblings n' = half_siblings n @ map (\<lambda>(k, i). Iid (iid i))
           (filter (\<lambda>(k, i). \<not> same_parents i n \<and> one_parent i n) (family.individuals F)) \<and>
       erase (family.individuals F') =
         erase (map (\<lambda>(k, i). (k, link i n)) (family.individuals F) @ [(iid n, n')]))"
proof -
  from assms have new: "iid n \<notin> fst ` set (family.individuals F)"
    by (auto simp: add_individual_def split: if_splits)
  let ?n1 = "n\<lparr>individual.fid := family.fid F\<rparr>"
  let ?ms = "map (\<lambda>(k, i). (k, link i n)) (family.individuals F)"
  let ?n2 = "?n1\<lparr>siblings := siblings ?n1 @ map (\<lambda>(k, i). Iid (iid i))
                  (filter (\<lambda>(k, i). same_parents i ?n1) (family.individuals F)),
        half_siblings := half_siblings ?n1 @
          map (\<lambda>(k, i). Iid (iid i))
            (filter (\<lambda>(k, i). \<not> same_parents i ?n1 \<and> one_parent i ?n1) (family.individuals F))\<rparr>"
  have r: "relate (family.individuals F) ?n1 = (?ms, ?n2)"
    unfolding relate_eq by (simp add: link_fid)
  let ?F1 = "F\<lparr>family.individuals := ?ms\<rparr>"
  let ?F2 = "add_parent (iid ?n2) (mother ?n2) ?F1"
  let ?F3 = "add_parent (iid ?n2) (father ?n2) ?F2"
  let ?n3 = "(case map_of (parents ?F3) (iid ?n2) of None \<Rightarrow> ?n2
                   | Some l \<Rightarrow> ?n2\<lparr>children := map Iid l\<rparr>)"
  have "add_individual F n = Inr (?F3\<lparr>family.individuals :=
       AList.update (iid ?n3) ?n3 (family.individuals ?F3)\<rparr>)"
    unfolding add_individual_def Let_def r prod.case by (simp only: new if_False)
  with assms have F': "F' = ?F3\<lparr>family.individuals :=
       AList.update (iid ?n3) ?n3 (family.individuals ?F3)\<rparr>"
    by (simp only: sum.inject)
  have e3: "erase (family.individuals ?F3) = erase ?ms" and f3: "family.fid ?F3 = family.fid F"
    using add_parent_erase[of "iid ?n2" "father ?n2" ?F2]
      add_parent_erase[of "iid ?n2" "mother ?n2" ?F1] by simp_all
  have k3: "fst ` set (family.individuals ?F3) = fst ` set (family.individuals F)"
  proof -
    have "fst ` set (family.individuals ?F3) = fst ` set (erase (family.individuals ?F3))"
      by (simp only: erase_keyset)
    also have "\<dots> = fst ` set ?ms" unfolding e3 by (simp only: erase_keyset)
    also have "\<dots> = fst ` set (family.individuals F)" by force
    finally show ?thesis .
  qed
  have i3: "iid ?n3 = iid n" by (simp split: option.splits)
  have n3e: "[(iid n, ?n3)] = [(iid n, ?n3)]" by simp
  have er3: "erase [(iid n, ?n3)] = erase [(iid n, ?n2)]"
    by (simp add: erase_def split: option.splits)
  have upd: "AList.update (iid ?n3) ?n3 (family.individuals ?F3) =
       family.individuals ?F3 @ [(iid n, ?n3)]"
    unfolding i3 by (rule update_new) (simp only: k3 new not_False_eq_True)
  have iF': "family.individuals F' = family.individuals ?F3 @ [(iid n, ?n3)]"
    unfolding F' using upd by simp
  have eF': "erase (family.individuals F') = erase (?ms @ [(iid n, ?n2)])"
    unfolding iF' erase_append e3 er3 ..
  have fF': "family.fid F' = family.fid F" unfolding F' using f3 by simp
  have s1: "\<And>j. same_parents j ?n1 = same_parents j n" "\<And>j. one_parent j ?n1 = one_parent j n"
    by (simp_all add: same_parents_def one_parent_def)
  show ?thesis
    apply (intro conjI)
      apply (rule new)
     apply (rule fF')
    apply (rule exI[of _ ?n2])
    using eF' by (simp add: s1)
qed

lemma Iid_image: "Iid x \<in> (\<lambda>(k, i). Iid (iid i)) ` S \<longleftrightarrow> (\<exists>k a. (k, a) \<in> S \<and> x = iid a)"
  by force

lemma add_individual_inv:
  assumes add: "add_individual F n = Inr F'"
    and inv: "members_inv (family.fid F) (family.individuals F)"
    and ns: "no_ids (siblings n)" and nh: "no_ids (half_siblings n)"
  shows "members_inv (family.fid F') (family.individuals F') \<and> family.fid F' = family.fid F"
proof -
  let ?ms = "family.individuals F"
  from add_individual_erase[OF add] obtain n' where
    new: "iid n \<notin> fst ` set ?ms" and fF: "family.fid F' = family.fid F"
    and fid: "individual.fid n' = family.fid F" and iid: "iid n' = iid n"
    and s: "siblings n' = siblings n @ map (\<lambda>(k, i). Iid (iid i))
           (filter (\<lambda>(k, i). same_parents i n) ?ms)"
    and h: "half_siblings n' = half_siblings n @ map (\<lambda>(k, i). Iid (iid i))
           (filter (\<lambda>(k, i). \<not> same_parents i n \<and> one_parent i n) ?ms)"
    and e: "erase (family.individuals F') = erase (map (\<lambda>(k, i). (k, link i n)) ?ms @ [(iid n, n')])"
    by blast
  have sib: "sibling_ids n' = {iid a | k a. (k, a) \<in> set ?ms \<and> same_parents a n}"
  proof -
    have "\<And>x. Iid x \<in> set (siblings n') \<longleftrightarrow>
        (\<exists>k a. (k, a) \<in> {p \<in> set ?ms. case p of (k, i) \<Rightarrow> same_parents i n} \<and> x = iid a)"
      unfolding s using ns by (simp only: set_append set_map set_filter Un_iff Iid_image no_ids_def) blast
    then show ?thesis unfolding sibling_ids_def by auto
  qed
  have hsib: "half_sibling_ids n' =
        {iid a | k a. (k, a) \<in> set ?ms \<and> \<not> same_parents a n \<and> one_parent a n}"
  proof -
    have "\<And>x. Iid x \<in> set (half_siblings n') \<longleftrightarrow>
        (\<exists>k a. (k, a) \<in> {p \<in> set ?ms. case p of (k, i) \<Rightarrow> \<not> same_parents i n \<and> one_parent i n}
           \<and> x = iid a)"
      unfolding h using nh by (simp only: set_append set_map set_filter Un_iff Iid_image no_ids_def) blast
    then show ?thesis unfolding half_sibling_ids_def by auto
  qed
  from members_inv_step[OF inv new fid iid sib hsib]
  have "members_inv (family.fid F) (erase (map (\<lambda>(k, i). (k, link i n)) ?ms @ [(iid n, n')]))"
    by (simp only: members_inv_erase)
  then have "members_inv (family.fid F) (family.individuals F')"
    unfolding e[symmetric] by (simp only: members_inv_erase)
  with fF show ?thesis by simp
qed

lemma add_individual_calls_inv:
  assumes "members_inv (family.fid F) (family.individuals F)"
    and "\<forall>n\<in>set ns. no_ids (siblings n) \<and> no_ids (half_siblings n)"
  shows "members_inv (family.fid F) (family.individuals (add_individual_calls F ns)) \<and>
         family.fid (add_individual_calls F ns) = family.fid F"
  using assms
proof (induction ns arbitrary: F)
  case Nil
  then show ?case by simp
next
  case (Cons n ns)
  show ?case
  proof (cases "add_individual F n")
    case (Inl e)
    with Cons show ?thesis by simp
  next
    case (Inr F1)
    from Cons.prems(2) have n: "no_ids (siblings n)" "no_ids (half_siblings n)" by simp_all
    from add_individual_inv[OF Inr Cons.prems(1) n]
    have i1: "members_inv (family.fid F1) (family.individuals F1)" and f1: "family.fid F1 = family.fid F"
      by blast+
    from Cons.prems(2) have r: "\<forall>n\<in>set ns. no_ids (siblings n) \<and> no_ids (half_siblings n)" by simp
    from Cons.IH[OF i1 r] have "members_inv (family.fid F1)
        (family.individuals (add_individual_calls F1 ns)) \<and>
         family.fid (add_individual_calls F1 ns) = family.fid F1" .
    then show ?thesis unfolding f1 using Inr by simp
  qed
qed

lemma add_individuals_calls:
  "add_individuals F ns = Inr F' \<Longrightarrow> add_individual_calls F ns = F'"
  by (induction ns arbitrary: F) (auto split: sum.splits)

text \<open>
  Claim C8. Take a family made by \<^verbatim>\<open>Family(fid)\<close> followed by any sequence of
  \<^verbatim>\<open>add_individual\<close> calls (a call that raises leaves the family as it was), or made by
  \<^verbatim>\<open>Family(fid, individuals)\<close>, where every individual handed over comes from the
  constructor of \<^verbatim>\<open>Individual\<close>. Then the family keeps its identifier, every member
  carries the family's identifier and is stored under its own identifier, and for any two
  members A and B the identifier of B is in the sibling list of A exactly when the
  identifier of A is in the sibling list of B, and likewise for the half-sibling lists.
\<close>

theorem family_relations_symmetric:
  assumes made: "\<forall>n\<in>set ns. \<exists>f i fa mo sx ph s h c. Individual_init f i fa mo sx ph s h c = Inr n"
    and fam: "(Family_init f0 None = Inr F0 \<and> F = add_individual_calls F0 ns) \<or>
              Family_init f0 (Some ns) = Inr F"
  shows "family.fid F = f0 \<and>
         (\<forall>(ka, a)\<in>set (family.individuals F). \<forall>(kb, b)\<in>set (family.individuals F).
            individual.fid a = family.fid F \<and> iid a = ka \<and>
            (Iid (iid b) \<in> set (siblings a) \<longleftrightarrow> Iid (iid a) \<in> set (siblings b)) \<and>
            (Iid (iid b) \<in> set (half_siblings a) \<longleftrightarrow> Iid (iid a) \<in> set (half_siblings b)))"
proof -
  let ?E = "\<lparr>family.fid = f0, family.individuals = [], parents = [], founder = None\<rparr>"
  from fam have F: "F = add_individual_calls ?E ns"
    by (auto simp: Family_init_def dest: add_individuals_calls)
  have e: "members_inv (family.fid ?E) (family.individuals ?E)" by (simp add: members_inv_def)
  from made have n: "\<forall>n\<in>set ns. no_ids (siblings n) \<and> no_ids (half_siblings n)"
    using Individual_init_no_ids by blast
  from add_individual_calls_inv[OF e n] F
  have inv: "members_inv f0 (family.individuals F)" and f: "family.fid F = f0" by simp_all
  from inv have key: "\<And>k a. (k, a) \<in> set (family.individuals F) \<Longrightarrow> iid a = k \<and> individual.fid a = f0"
    and sym: "\<And>ka a kb b. (ka, a) \<in> set (family.individuals F) \<Longrightarrow>
         (kb, b) \<in> set (family.individuals F) \<Longrightarrow>
         (kb \<in> sibling_ids a \<longleftrightarrow> ka \<in> sibling_ids b) \<and>
         (kb \<in> half_sibling_ids a \<longleftrightarrow> ka \<in> half_sibling_ids b)"
    unfolding members_inv_def by blast+
  show ?thesis
  proof (intro conjI ballI, rule f, clarify, goal_cases)
    case (1 ka a kb b)
    from key[OF 1(1)] key[OF 1(2)] sym[OF 1(1) 1(2)] f show ?case
      by (simp add: sibling_ids_def half_sibling_ids_def)
  qed
qed

lemma family_of_kids:
  "add_individual_calls \<lparr>family.fid = ''F1'', family.individuals = [], parents = [], founder = None\<rparr>
      [kid1, kid2, kid1, kid3] =
   \<lparr>family.fid = ''F1'',
    family.individuals =
      [(''kid1'', kid1\<lparr>siblings := [Iid ''kid2''], half_siblings := [Iid ''kid3'']\<rparr>),
       (''kid2'', kid2\<lparr>siblings := [Iid ''kid1''], half_siblings := [Iid ''kid3'']\<rparr>),
       (''kid3'', kid3\<lparr>individual.fid := ''F1'', half_siblings := [Iid ''kid1'', Iid ''kid2'']\<rparr>)],
    parents = [(''mum'', [''kid1'', ''kid2'']), (''dad'', [''kid1'', ''kid2'', ''kid3''])],
    founder = None\<rparr>"
  by code_simp

text \<open>Two full siblings, a repeated individual and a half sibling from another family
  added to the family \<^verbatim>\<open>F1\<close>.\<close>

theorem family_relations_symmetric_witness:
  "Family_init ''F1'' None =
     Inr \<lparr>family.fid = ''F1'', family.individuals = [], parents = [], founder = None\<rparr> \<and>
   Individual_init ''F1'' ''kid1'' ''dad'' ''mum'' (PyStr ''1'') (PyStr ''2'') [] [] [] = Inr kid1 \<and>
   Individual_init ''F1'' ''kid2'' ''dad'' ''mum'' (PyStr ''2'') (PyStr ''1'') [] [] [] = Inr kid2 \<and>
   Individual_init ''other'' ''kid3'' ''dad'' ''0'' (PyStr ''U'') (PyStr ''-9'') [] [] [] = Inr kid3 \<and>
   family.individuals (add_individual_calls
      \<lparr>family.fid = ''F1'', family.individuals = [], parents = [], founder = None\<rparr>
      [kid1, kid2, kid1, kid3]) =
      [(''kid1'', kid1\<lparr>siblings := [Iid ''kid2''], half_siblings := [Iid ''kid3'']\<rparr>),
       (''kid2'', kid2\<lparr>siblings := [Iid ''kid1''], half_siblings := [Iid ''kid3'']\<rparr>),
       (''kid3'', kid3\<lparr>individual.fid := ''F1'', half_siblings := [Iid ''kid1'', Iid ''kid2'']\<rparr>)] \<and>
   family.fid (add_individual_calls
      \<lparr>family.fid = ''F1'', family.individuals = [], parents = [], founder = None\<rparr>
      [kid1, kid2, kid1, kid3]) = ''F1''"
proof -
  have made: "\<forall>n\<in>set [kid1, kid2, kid1, kid3].
      \<exists>f i fa mo sx ph s h c. Individual_init f i fa mo sx ph s h c = Inr n"
    using kids_made by (simp only: list.set ball_simps) blast
  have init: "Family_init ''F1'' None =
     Inr \<lparr>family.fid = ''F1'', family.individuals = [], parents = [], founder = None\<rparr>"
    by (simp add: Family_init_def)
  from family_relations_symmetric [OF made, of "''F1''"
      "\<lparr>family.fid = ''F1'', family.individuals = [], parents = [], founder = None\<rparr>"
      "add_individual_calls
         \<lparr>family.fid = ''F1'', family.individuals = [], parents = [], founder = None\<rparr>
         [kid1, kid2, kid1, kid3]"] init
  have "family.fid (add_individual_calls
      \<lparr>family.fid = ''F1'', family.individuals = [], parents = [], founder = None\<rparr>
      [kid1, kid2, kid1, kid3]) = ''F1''"
    by blast
  with init kids_made family_of_kids show ?thesis by simp
qed


section \<open>Reading a PED file\<close>

lemma parse_line_skip: "\<not> data_line l \<Longrightarrow> parse_line p l = Inr p"
  by (auto simp: parse_line_def data_line_def Let_def)

lemma parse_line_short:
  "data_line l \<Longrightarrow> length (columns l) < 6 \<Longrightarrow>
   parse_line p l =
     Inl (Exception (''Not enough fields for PED file '' @ [CHR 0x27] @ filename p @
                     [CHR 0x27] @ ''.'' @ [CHR 0x0A] @ ''Offending line was: '' @ rstrip l))"
  by (simp add: parse_line_def data_line_def columns_def Let_def)

lemma parse_line_repeated:
  "data_line l \<Longrightarrow> 6 \<le> length (columns l) \<Longrightarrow>
   columns l ! 1 \<in> fst ` set (pedfile.individuals p) \<Longrightarrow>
   parse_line p l =
     (case py_int (PyStr (columns l ! 5)) of
        Inl e \<Rightarrow> Inl e
      | Inr n \<Rightarrow>
          Inl (PedError (''Duplicate individual ID '' @ [CHR 0x27] @ columns l ! 1 @
                         [CHR 0x27] @ ''in PED file '' @ [CHR 0x27] @ filename p @
                         [CHR 0x27] @ ''. '' @
                         ''Please ensure all individual IDs are unique.'')))"
proof -
  assume d: "data_line l" and len: "6 \<le> length (columns l)"
    and rep: "columns l ! 1 \<in> fst ` set (pedfile.individuals p)"
  let ?c = "columns l"
  let ?I = "Individual_init (?c ! 0) (?c ! 1) (?c ! 2) (?c ! 3) (PyStr (?c ! 4)) (PyStr (?c ! 5)) [] [] []"
  show ?thesis
  proof (cases "py_int (PyStr (?c ! 5))")
    case (Inl e)
    then have "?I = Inl e"
      using py_int_cases[of "PyStr (?c ! 4)"] by (auto simp: Individual_init_def)
    with d len Inl show ?thesis
      by (simp add: parse_line_def data_line_def columns_def Let_def)
  next
    case (Inr n)
    then obtain indv where i: "?I = Inr indv"
      using py_int_cases[of "PyStr (?c ! 4)"] by (auto simp: Individual_init_def)
    from Individual_init_iid[OF i] have "iid indv = ?c ! 1" by simp
    with d len Inr rep i show ?thesis
      by (simp add: parse_line_def data_line_def columns_def[symmetric] Let_def)
  qed
qed

lemma parse_line_ok:
  assumes "parse_line p l = Inr p'" and "data_line l"
  shows "6 \<le> length (columns l) \<and> columns l ! 1 \<notin> fst ` set (pedfile.individuals p) \<and>
         fst ` set (pedfile.individuals p') = insert (columns l ! 1) (fst ` set (pedfile.individuals p))"
proof -
  let ?c = "columns l"
  have len: "6 \<le> length ?c"
  proof (rule ccontr)
    assume "\<not> 6 \<le> length ?c"
    then have "length ?c < 6" by simp
    from parse_line_short[OF assms(2) this, of p] assms(1) show False by simp
  qed
  have new: "?c ! 1 \<notin> fst ` set (pedfile.individuals p)"
  proof
    assume "?c ! 1 \<in> fst ` set (pedfile.individuals p)"
    from parse_line_repeated[OF assms(2) len this] assms(1) show False
      by (simp split: sum.splits)
  qed
  let ?I = "Individual_init (?c ! 0) (?c ! 1) (?c ! 2) (?c ! 3) (PyStr (?c ! 4)) (PyStr (?c ! 5)) [] [] []"
  from assms len obtain indv where i: "?I = Inr indv"
    by (cases ?I) (simp_all add: parse_line_def data_line_def columns_def[symmetric] Let_def)
  from Individual_init_iid[OF i] have id: "iid indv = ?c ! 1" by simp
  from assms len new i id have
    "\<exists>fs. p' = p\<lparr>pedfile.individuals :=
                  AList.update (?c ! 1) (individual.fid indv) (pedfile.individuals p),
                families := fs\<rparr>"
    by (auto simp: parse_line_def data_line_def columns_def[symmetric] Let_def
        split: option.splits sum.splits)
  then obtain fs where "p' = p\<lparr>pedfile.individuals :=
                  AList.update (?c ! 1) (individual.fid indv) (pedfile.individuals p),
                families := fs\<rparr>" by blast
  then have "pedfile.individuals p' =
      AList.update (?c ! 1) (individual.fid indv) (pedfile.individuals p)" by simp
  then have "fst ` set (pedfile.individuals p') = insert (?c ! 1) (fst ` set (pedfile.individuals p))"
    by (simp only: dom_update insert_is_Un[symmetric])
  with len new show ?thesis by simp
qed

lemma parse_ped_ok:
  "parse_ped p ls = Inr p' \<Longrightarrow>
     (\<forall>l\<in>set ls. data_line l \<longrightarrow> 6 \<le> length (columns l)) \<and>
     distinct (line_ids ls) \<and>
     set (line_ids ls) \<inter> fst ` set (pedfile.individuals p) = {} \<and>
     fst ` set (pedfile.individuals p') = fst ` set (pedfile.individuals p) \<union> set (line_ids ls)"
proof (induction ls arbitrary: p)
  case Nil
  then show ?case by (simp add: line_ids_def)
next
  case (Cons l ls)
  from Cons.prems obtain p1 where p1: "parse_line p l = Inr p1" and rest: "parse_ped p1 ls = Inr p'"
    by (auto split: sum.splits)
  note IH = Cons.IH[OF rest]
  show ?case
  proof (cases "data_line l")
    case False
    with p1 parse_line_skip[OF False, of p] have "p1 = p" by simp
    with IH False show ?thesis by (simp add: line_ids_def)
  next
    case True
    from parse_line_ok[OF p1 True]
    have len: "6 \<le> length (columns l)" and new: "columns l ! 1 \<notin> fst ` set (pedfile.individuals p)"
      and keys: "fst ` set (pedfile.individuals p1) = insert (columns l ! 1) (fst ` set (pedfile.individuals p))"
      by blast+
    have li: "line_ids (l # ls) = (columns l ! 1) # line_ids ls"
      using True by (simp add: line_ids_def)
    from IH keys have nin: "columns l ! 1 \<notin> set (line_ids ls)" by blast
    from IH len nin new keys show ?thesis unfolding li by auto
  qed
qed

lemma add_individual_duplicate:
  "iid n \<in> fst ` set (family.individuals F) \<Longrightarrow>
   add_individual F n =
     Inl (PedError (''Duplicate individual '' @ [CHR 0x27] @ iid n @ [CHR 0x27] @
                    '' added to family '' @ [CHR 0x27] @ family.fid F @ [CHR 0x27] @ ''.''))"
  by (simp add: add_individual_def)

text \<open>
  Claim C6, as the code has it. In \<^verbatim>\<open>_parse_ped\<close>, a line that is neither a comment
  nor blank and has fewer than six columns raises an \<^verbatim>\<open>Exception\<close> that names the
  file and the line. A line with six columns or more whose individual identifier was
  parsed before raises the \<^verbatim>\<open>PedError\<close> for a duplicate identifier when its
  phenotype column is an integer literal; the individual is constructed before the
  identifier is looked up, so a phenotype column that is not an integer literal raises
  the \<^verbatim>\<open>ValueError\<close> of the constructor instead. Hence reading a file raises whenever
  one of its lines is too short or two of its lines have the same individual identifier.
  \<^verbatim>\<open>Family.add_individual\<close> raises a \<^verbatim>\<open>PedError\<close> when the identifier of the
  individual is already a key of the family.
\<close>

theorem malformed_pedigree_raises:
  "(data_line l \<and> length (columns l) < 6 \<longrightarrow>
      parse_line p l =
        Inl (Exception (''Not enough fields for PED file '' @ [CHR 0x27] @ filename p @
                        [CHR 0x27] @ ''.'' @ [CHR 0x0A] @ ''Offending line was: '' @ rstrip l))) \<and>
   (data_line l \<and> 6 \<le> length (columns l) \<and>
    columns l ! 1 \<in> fst ` set (pedfile.individuals p) \<longrightarrow>
      parse_line p l =
        (case py_int (PyStr (columns l ! 5)) of
           Inl e \<Rightarrow> Inl e
         | Inr n \<Rightarrow>
             Inl (PedError (''Duplicate individual ID '' @ [CHR 0x27] @ columns l ! 1 @
                            [CHR 0x27] @ ''in PED file '' @ [CHR 0x27] @ filename p @
                            [CHR 0x27] @ ''. '' @
                            ''Please ensure all individual IDs are unique.'')))) \<and>
   ((\<exists>l\<in>set ls. data_line l \<and> length (columns l) < 6) \<or> \<not> distinct (line_ids ls) \<longrightarrow>
      (\<exists>e. PedFile_init name ls = Inl e)) \<and>
   (iid n \<in> fst ` set (family.individuals F) \<longrightarrow>
      add_individual F n =
        Inl (PedError (''Duplicate individual '' @ [CHR 0x27] @ iid n @ [CHR 0x27] @
                       '' added to family '' @ [CHR 0x27] @ family.fid F @ [CHR 0x27] @ ''.'')))"
proof (intro conjI impI)
  assume "data_line l \<and> length (columns l) < 6"
  then show "parse_line p l =
        Inl (Exception (''Not enough fields for PED file '' @ [CHR 0x27] @ filename p @
                        [CHR 0x27] @ ''.'' @ [CHR 0x0A] @ ''Offending line was: '' @ rstrip l))"
    using parse_line_short by blast
next
  assume "data_line l \<and> 6 \<le> length (columns l) \<and>
    columns l ! 1 \<in> fst ` set (pedfile.individuals p)"
  then show "parse_line p l =
        (case py_int (PyStr (columns l ! 5)) of
           Inl e \<Rightarrow> Inl e
         | Inr n \<Rightarrow>
             Inl (PedError (''Duplicate individual ID '' @ [CHR 0x27] @ columns l ! 1 @
                            [CHR 0x27] @ ''in PED file '' @ [CHR 0x27] @ filename p @
                            [CHR 0x27] @ ''. '' @
                            ''Please ensure all individual IDs are unique.'')))"
    using parse_line_repeated by blast
next
  assume bad: "(\<exists>l\<in>set ls. data_line l \<and> length (columns l) < 6) \<or> \<not> distinct (line_ids ls)"
  show "\<exists>e. PedFile_init name ls = Inl e"
  proof (cases "PedFile_init name ls")
    case (Inl e)
    then show ?thesis by blast
  next
    case (Inr p')
    from parse_ped_ok[OF Inr[unfolded PedFile_init_def]] bad show ?thesis by force
  qed
next
  assume "iid n \<in> fst ` set (family.individuals F)"
  then show "add_individual F n =
        Inl (PedError (''Duplicate individual '' @ [CHR 0x27] @ iid n @ [CHR 0x27] @
                       '' added to family '' @ [CHR 0x27] @ family.fid F @ [CHR 0x27] @ ''.''))"
    by (rule add_individual_duplicate)
qed

text \<open>A file whose last line has five columns, a file that names \<^verbatim>\<open>dad\<close> twice, and
  a family given the same individual twice.\<close>

theorem malformed_pedigree_raises_witness:
  "data_line ''F1 mum 0 0 2'' \<and> length (columns ''F1 mum 0 0 2'') = 5 \<and>
   PedFile_init ''x.ped'' short_file =
     Inl (Exception (''Not enough fields for PED file '' @ [CHR 0x27] @ ''x.ped'' @
                     [CHR 0x27] @ ''.'' @ [CHR 0x0A] @ ''Offending line was: F1 mum 0 0 2'')) \<and>
   line_ids repeated_file = [''dad'', ''dad''] \<and>
   PedFile_init ''x.ped'' repeated_file =
     Inl (PedError (''Duplicate individual ID '' @ [CHR 0x27] @ ''dad'' @
                    [CHR 0x27] @ ''in PED file '' @ [CHR 0x27] @ ''x.ped'' @
                    [CHR 0x27] @ ''. '' @ ''Please ensure all individual IDs are unique.'')) \<and>
   Family_init ''F1'' (Some [dad, dad]) =
     Inl (PedError (''Duplicate individual '' @ [CHR 0x27] @ ''dad'' @ [CHR 0x27] @
                    '' added to family '' @ [CHR 0x27] @ ''F1'' @ [CHR 0x27] @ ''.''))"
proof -
  have a: "data_line ''F1 mum 0 0 2''" "length (columns ''F1 mum 0 0 2'') = 5"
    by code_simp+
  have b: "PedFile_init ''x.ped'' short_file =
     Inl (Exception (''Not enough fields for PED file '' @ [CHR 0x27] @ ''x.ped'' @
                     [CHR 0x27] @ ''.'' @ [CHR 0x0A] @ ''Offending line was: F1 mum 0 0 2''))"
    by code_simp
  have c: "line_ids repeated_file = [''dad'', ''dad'']" by code_simp
  have d: "PedFile_init ''x.ped'' repeated_file =
     Inl (PedError (''Duplicate individual ID '' @ [CHR 0x27] @ ''dad'' @
                    [CHR 0x27] @ ''in PED file '' @ [CHR 0x27] @ ''x.ped'' @
                    [CHR 0x27] @ ''. '' @ ''Please ensure all individual IDs are unique.''))"
    by code_simp
  have e: "Family_init ''F1'' (Some [dad, dad]) =
     Inl (PedError (''Duplicate individual '' @ [CHR 0x27] @ ''dad'' @ [CHR 0x27] @
                    '' added to family '' @ [CHR 0x27] @ ''F1'' @ [CHR 0x27] @ ''.''))"
    by code_simp
  have m: "''F1 mum 0 0 2'' \<in> set short_file" by (simp add: short_file_def)
  from malformed_pedigree_raises [where ls = short_file and name = "''x.ped''"] a m
  have "\<exists>e. PedFile_init ''x.ped'' short_file = Inl e" by force
  with a b c d e show ?thesis by simp
qed

text \<open>A file that names \<^verbatim>\<open>dad\<close> twice, the second time with the phenotype
  \<^verbatim>\<open>x\<close>: reading it raises the \<^verbatim>\<open>ValueError\<close> of \<^verbatim>\<open>int()\<close>, not the error
  for a repeated identifier.\<close>

theorem malformed_pedigree_counterexample:
  "line_ids phenotype_file = [''dad'', ''dad''] \<and>
   PedFile_init ''x.ped'' phenotype_file = Inl (ValueError ''x'')"
  by code_simp

section \<open>Inheritance models without samples\<close>


























lemma family_single:
  "get_family_filter (VaseRunner_start args_single elig_single) =
     Inr ((VaseRunner_start args_single elig_single)
            \<lparr>ped_file := Some [''dad'', ''kid'', ''s1''], family_filter := True\<rparr>)"
  by (simp add: VaseRunner_start_def given_def args_single_def elig_single_def args_two_def
      elig_two_def get_family_filter_def ped_add_individual_def Let_def)




end
